theory Spec2Isabelle
  imports Main "HOL-Library.Word"
begin

unbundle bit_operations_syntax

section \<open>Data model of \<^verbatim>\<open>osmem.c\<close>\<close>

text \<open>
  \<^verbatim>\<open>size_t\<close> and \<^verbatim>\<open>void *\<close> are 64-bit words: arithmetic wraps as it does in C.
  A \<^verbatim>\<open>TBlock_meta *\<close> is either null, the address of one of the two global
  sentinels, or a header living at an address of the heap or of a mapping.
  The sentinels are objects of their own, so they are never equal to a header
  at an address.
\<close>

type_synonym addr = "64 word"

datatype ptr = Null | Head_brk | Head_mmap | Cell addr

text \<open>
  The cast \<^verbatim>\<open>(void *)cell\<close>. The source takes the address of a header only
  for headers in the heap or in a mapping; the null pointer is address 0, and
  the sentinels (whose addresses the source never computes with) are given 0 too.
\<close>

fun addr_of :: "ptr \<Rightarrow> addr" where
  "addr_of (Cell a) = a"
| "addr_of Null = 0"
| "addr_of Head_brk = 0"
| "addr_of Head_mmap = 0"

text \<open>
  Modelled from the spec: \<^verbatim>\<open>block_meta.h\<close> is not among the sources. It declares
  \<^verbatim>\<open>struct block_meta\<close> with the fields \<^verbatim>\<open>size\<close>, \<^verbatim>\<open>status\<close>, \<^verbatim>\<open>prev\<close>, \<^verbatim>\<open>next\<close>
  (spec, section 3), the three status codes, and the macro \<^verbatim>\<open>DIE\<close> that ends the
  process when its condition holds (spec, section 6).
\<close>

record block_meta =
  size' :: "64 word"
  status :: int
  prev :: ptr
  "next" :: ptr

definition STATUS_FREE :: int where "STATUS_FREE = 0"
definition STATUS_ALLOC :: int where "STATUS_ALLOC = 1"
definition STATUS_MAPPED :: int where "STATUS_MAPPED = 2"

text \<open>Modelled from the spec: the header record takes 32 bytes (spec, section 8).\<close>

definition sizeof_TBlock_meta :: "64 word" where "sizeof_TBlock_meta = 32"

definition BRK_LIMIT :: "64 word" where "BRK_LIMIT = 128 * 1024"

definition ALIGNMENT :: "64 word" where "ALIGNMENT = 8"

definition SIZE_ALIGN :: "64 word \<Rightarrow> 64 word" where
  "SIZE_ALIGN sz = (sz + (ALIGNMENT - 1)) AND NOT (ALIGNMENT - 1)"

definition META_DATA_SIZE :: "64 word" where
  "META_DATA_SIZE = SIZE_ALIGN sizeof_TBlock_meta"

definition MAP_FAILED :: addr where "MAP_FAILED = - 1"

text \<open>
  What the process does to the outside world, in order: the mappings it asks
  for and gives back, and the calls of \<^verbatim>\<open>memcpy\<close> and \<^verbatim>\<open>memset\<close> with their
  lengths.
\<close>

datatype event =
  Mmap addr "64 word"
| Munmap addr "64 word"
| Memcpy addr addr "64 word"
| Memset addr "64 word"

text \<open>
  The state: the headers (the two globals \<^verbatim>\<open>block_head_brk\<close> and
  \<^verbatim>\<open>block_head_mmap\<close> are the headers at \<^const>\<open>Head_brk\<close> and \<^const>\<open>Head_mmap\<close>),
  the payload bytes, and the kernel's side: the program break, the limit up
  to which it may grow and the address where the heap starts (the break of the
  process before the allocator moved it), the address the kernel answers to
  the n-th call of \<^verbatim>\<open>mmap\<close>, the number of calls made so far, the mappings that
  are live (each with its base and the length asked for), and the page size.
\<close>

record state =
  cells :: "ptr \<Rightarrow> block_meta"
  bytes :: "addr \<Rightarrow> 8 word"
  brk :: addr
  brk_max :: addr
  heap_base :: addr
  mmap_ret :: "nat \<Rightarrow> addr"
  mmap_calls :: nat
  maps :: "(addr \<times> 64 word) list"
  pagesize :: "64 word"
  trace :: "event list"

text \<open>
  A call returns, or ends the process through \<^verbatim>\<open>DIE\<close>, or faults: \<^verbatim>\<open>memcpy\<close> or
  \<^verbatim>\<open>memset\<close> was given a range of addresses that is not all memory of the
  process, which the kernel answers by killing it.
\<close>

datatype 'a result = Ok 'a | Died string | Fault event

definition bindR :: "'a result option \<Rightarrow> ('a \<Rightarrow> 'b result option) \<Rightarrow> 'b result option" where
  "bindR m f =
     (case m of
        None \<Rightarrow> None
      | Some (Died msg) \<Rightarrow> Some (Died msg)
      | Some (Fault e) \<Rightarrow> Some (Fault e)
      | Some (Ok x) \<Rightarrow> f x)"

subsection \<open>Assignments to header fields\<close>

definition set_status :: "state \<Rightarrow> ptr \<Rightarrow> int \<Rightarrow> state" where
  "set_status s p v = s\<lparr>cells := (cells s)(p := (cells s p)\<lparr>status := v\<rparr>)\<rparr>"

definition set_size :: "state \<Rightarrow> ptr \<Rightarrow> 64 word \<Rightarrow> state" where
  "set_size s p v = s\<lparr>cells := (cells s)(p := (cells s p)\<lparr>size' := v\<rparr>)\<rparr>"

definition set_next :: "state \<Rightarrow> ptr \<Rightarrow> ptr \<Rightarrow> state" where
  "set_next s p v = s\<lparr>cells := (cells s)(p := (cells s p)\<lparr>next := v\<rparr>)\<rparr>"

definition set_prev :: "state \<Rightarrow> ptr \<Rightarrow> ptr \<Rightarrow> state" where
  "set_prev s p v = s\<lparr>cells := (cells s)(p := (cells s p)\<lparr>prev := v\<rparr>)\<rparr>"

subsection \<open>The kernel and the C library\<close>

text \<open>
  \<^verbatim>\<open>sbrk(0)\<close> reads the break. Any other increment is signed; the call fails
  (returns \<^verbatim>\<open>(void *)-1\<close>) when the new break would leave the range from 0 to
  the limit, and otherwise moves the break and returns the old one.
\<close>

definition sbrk :: "state \<Rightarrow> 64 word \<Rightarrow> addr \<times> state" where
  "sbrk s inc =
     (if inc = 0 then (brk s, s)
      else if uint (brk s) + sint inc < 0 \<or> uint (brk_max s) < uint (brk s) + sint inc
        then (- 1, s)
      else (brk s, s\<lparr>brk := brk s + inc\<rparr>))"

text \<open>
  An anonymous \<^verbatim>\<open>mmap\<close> of length 0 fails (\<^verbatim>\<open>EINVAL\<close>). Otherwise the kernel
  answers the next address it has in store; unless that is \<^verbatim>\<open>MAP_FAILED\<close>, the
  process now has a mapping at that address, recorded with the length it asked
  for. \<^verbatim>\<open>munmap\<close> gives back the mapping that starts at the address.
\<close>

definition mmap :: "state \<Rightarrow> 64 word \<Rightarrow> addr \<times> state" where
  "mmap s len =
     (let a = (if len = 0 then MAP_FAILED else mmap_ret s (mmap_calls s))
      in (a,
          s\<lparr>mmap_calls := Suc (mmap_calls s),
            maps := (if a = MAP_FAILED then maps s else maps s @ [(a, len)]),
            trace := trace s @ [Mmap a len]\<rparr>))"

definition munmap :: "state \<Rightarrow> addr \<Rightarrow> 64 word \<Rightarrow> state" where
  "munmap s a len =
     s\<lparr>maps := filter (\<lambda>m. fst m \<noteq> a) (maps s),
       trace := trace s @ [Munmap a len]\<rparr>"

text \<open>
  The memory of the process that the allocator works with: the heap, from
  its start up to the break, and the live mappings, each as long as was asked
  for (the kernel rounds a mapping up to whole pages; the bytes of the last
  page past the length asked for are not counted as the program's).
  \<open>covers base len p n\<close>: the \<open>n\<close> bytes at \<open>p\<close> lie among the \<open>len\<close> bytes at
  \<open>base\<close>. \<open>accessible s p n\<close>: the \<open>n\<close> bytes at \<open>p\<close> are memory of the process
  (no byte at all always is).
\<close>

definition covers :: "addr \<Rightarrow> 64 word \<Rightarrow> addr \<Rightarrow> 64 word \<Rightarrow> bool" where
  "covers base len p n = (unat (p - base) + unat n \<le> unat len)"

definition accessible :: "state \<Rightarrow> addr \<Rightarrow> 64 word \<Rightarrow> bool" where
  "accessible s p n =
     (n = 0
      \<or> (heap_base s \<le> p \<and> unat p + unat n \<le> unat (brk s))
      \<or> list_ex (\<lambda>m. covers (fst m) (snd m) p n) (maps s))"

text \<open>
  \<^verbatim>\<open>memcpy\<close> and \<^verbatim>\<open>memset\<close> fault when a byte they are to read or write is not
  memory of the process.
\<close>

definition memcpy :: "state \<Rightarrow> addr \<Rightarrow> addr \<Rightarrow> 64 word \<Rightarrow> state result" where
  "memcpy s dst src n =
     (if accessible s dst n \<and> accessible s src n
      then Ok (s\<lparr>bytes := (\<lambda>a. if a - dst < n then bytes s (src + (a - dst)) else bytes s a),
                trace := trace s @ [Memcpy dst src n]\<rparr>)
      else Fault (Memcpy dst src n))"

definition memset :: "state \<Rightarrow> addr \<Rightarrow> 8 word \<Rightarrow> 64 word \<Rightarrow> state result" where
  "memset s p c n =
     (if accessible s p n
      then Ok (s\<lparr>bytes := (\<lambda>a. if a - p < n then c else bytes s a),
                trace := trace s @ [Memset p n]\<rparr>)
      else Fault (Memset p n))"

section \<open>The mapped list\<close>

definition init_list_mmap :: "state \<Rightarrow> state" where
  "init_list_mmap s =
     (let s1 = set_status s Head_mmap (- 1);
          s2 = set_size s1 Head_mmap 0;
          s3 = set_next s2 Head_mmap Head_mmap
      in set_prev s3 Head_mmap Head_mmap)"

definition add_meta_cell_mmap :: "state \<Rightarrow> 64 word \<Rightarrow> (addr \<times> state) result" where
  "add_meta_cell_mmap s sz =
     (let s0 = (if size' (cells s Head_mmap) = 0 then init_list_mmap s else s);
          total_size = META_DATA_SIZE + SIZE_ALIGN sz;
          (a, s1) = mmap s0 total_size
      in if a = MAP_FAILED then Died ''mmap''
         else
           let cell = Cell a;
               s2 = set_status s1 cell STATUS_MAPPED;
               s3 = set_size s2 cell (SIZE_ALIGN sz);
               s4 = set_next s3 cell Head_mmap;
               s5 = set_prev s4 cell (prev (cells s4 Head_mmap));
               s6 = set_next s5 (prev (cells s5 Head_mmap)) cell;
               s7 = set_prev s6 Head_mmap cell
           in Ok (a + META_DATA_SIZE, s7))"

definition delete_meta_cell_mmap :: "state \<Rightarrow> ptr \<Rightarrow> state" where
  "delete_meta_cell_mmap s cell =
     (let s1 = set_next s (prev (cells s cell)) (next (cells s cell));
          s2 = set_prev s1 (next (cells s1 cell)) (prev (cells s1 cell))
      in munmap s2 (addr_of cell) (META_DATA_SIZE + size' (cells s2 cell)))"

section \<open>The heap list\<close>

definition init_list_brk :: "state \<Rightarrow> state" where
  "init_list_brk s =
     (let s1 = set_status s Head_brk (- 1);
          s2 = set_size s1 Head_brk 1;
          s3 = set_next s2 Head_brk Head_brk
      in set_prev s3 Head_brk Head_brk)"

definition add_meta_cell_brk :: "state \<Rightarrow> ptr \<Rightarrow> ptr \<Rightarrow> 64 word \<Rightarrow> int \<Rightarrow> addr \<times> state" where
  "add_meta_cell_brk s last_cell cell sz st =
     (let s1 = set_status s cell st;
          s2 = set_size s1 cell (SIZE_ALIGN sz);
          s3 = set_next s2 cell (next (cells s2 last_cell));
          s4 = set_prev s3 cell last_cell;
          s5 = set_prev s4 (next (cells s4 last_cell)) cell;
          s6 = set_next s5 last_cell cell
      in (addr_of cell + META_DATA_SIZE, s6))"

definition delete_meta_cell_brk :: "state \<Rightarrow> ptr \<Rightarrow> state" where
  "delete_meta_cell_brk s cell =
     (let s1 = set_next s (prev (cells s cell)) (next (cells s cell))
      in set_prev s1 (next (cells s1 cell)) (prev (cells s1 cell)))"

definition heap_preallocation :: "state \<Rightarrow> state result" where
  "heap_preallocation s =
     (let s1 = init_list_brk s;
          (heap_start, s2) = sbrk s1 BRK_LIMIT
      in if heap_start = - 1 then Died ''sbrk''
         else Ok (snd (add_meta_cell_brk s2 Head_brk (Cell heap_start)
                         (BRK_LIMIT - META_DATA_SIZE) STATUS_FREE)))"

text \<open>
  The loop of \<^verbatim>\<open>coalesce_block\<close>: unlink every FREE header that follows.
  It returns the header it stopped at. On a list that never comes back to the
  sentinel the loop does not end: the result is \<^const>\<open>None\<close>.
\<close>

partial_function (option) coalesce_loop :: "state \<Rightarrow> ptr \<Rightarrow> (ptr \<times> state) option" where
  "coalesce_loop s free_curr =
     (if free_curr \<noteq> Head_brk \<and> status (cells s free_curr) = STATUS_FREE
      then coalesce_loop (delete_meta_cell_brk s free_curr)
             (next (cells (delete_meta_cell_brk s free_curr) free_curr))
      else Some (free_curr, s))"

declare coalesce_loop.simps [code]

definition coalesce_block :: "state \<Rightarrow> ptr \<Rightarrow> state result option" where
  "coalesce_block s curr_cell =
     (case coalesce_loop s (next (cells s curr_cell)) of
        None \<Rightarrow> None
      | Some (free_curr, s1) \<Rightarrow>
          (let s2 = set_next s1 curr_cell free_curr;
               start = addr_of curr_cell
           in if free_curr = Head_brk
              then (let (stop, s3) = sbrk s2 0
                    in if stop = - 1 then Some (Died ''sbrk'')
                       else Some (Ok (set_size s3 curr_cell (stop - start - META_DATA_SIZE))))
              else Some (Ok (set_size s2 curr_cell
                               (addr_of free_curr - start - META_DATA_SIZE)))))"

partial_function (option) coalesce_blocks_loop :: "state \<Rightarrow> ptr \<Rightarrow> state result option" where
  "coalesce_blocks_loop s curr_cell =
     (if curr_cell \<noteq> Head_brk
      then (if status (cells s curr_cell) = STATUS_FREE
            then (case coalesce_block s curr_cell of
                    None \<Rightarrow> None
                  | Some (Died msg) \<Rightarrow> Some (Died msg)
                  | Some (Fault e) \<Rightarrow> Some (Fault e)
                  | Some (Ok s1) \<Rightarrow> coalesce_blocks_loop s1 (next (cells s1 curr_cell)))
            else coalesce_blocks_loop s (next (cells s curr_cell)))
      else Some (Ok s))"

declare coalesce_blocks_loop.simps [code]

definition coalesce_blocks :: "state \<Rightarrow> state result option" where
  "coalesce_blocks s = coalesce_blocks_loop s (next (cells s Head_brk))"

definition use_unused_space :: "state \<Rightarrow> ptr \<Rightarrow> 64 word \<Rightarrow> state result" where
  "use_unused_space s cell size_used =
     (let start = addr_of cell + META_DATA_SIZE + SIZE_ALIGN size_used;
          r = (if next (cells s cell) \<noteq> Head_brk
               then Ok (addr_of (next (cells s cell)), s)
               else (let (stop, s1) = sbrk s 0
                     in if stop = - 1 then Died ''sbrk'' else Ok (stop, s1)))
      in case r of
           Died msg \<Rightarrow> Died msg
         | Fault e \<Rightarrow> Fault e
         | Ok (stop, s1) \<Rightarrow>
             if stop - start > META_DATA_SIZE
             then Ok (snd (add_meta_cell_brk s1 cell (Cell start)
                             (stop - start - META_DATA_SIZE) STATUS_FREE))
             else Ok s1)"

text \<open>
  The loop of \<^verbatim>\<open>search_best_fit\<close>; \<open>best_fit\<close> is the candidate so far
  (\<^const>\<open>Null\<close> at the start).
\<close>

definition best_fit_step :: "state \<Rightarrow> 64 word \<Rightarrow> ptr \<Rightarrow> ptr \<Rightarrow> ptr" where
  "best_fit_step s sz curr_cell best_fit =
     (if status (cells s curr_cell) = STATUS_FREE
      then (let b1 = (if best_fit = Null \<and> size' (cells s curr_cell) \<ge> sz
                      then curr_cell else best_fit)
            in if b1 \<noteq> Null \<and> size' (cells s curr_cell) \<ge> sz
                  \<and> size' (cells s curr_cell) < size' (cells s b1)
               then curr_cell else b1)
      else best_fit)"

partial_function (option) best_fit_loop :: "state \<Rightarrow> 64 word \<Rightarrow> ptr \<Rightarrow> ptr \<Rightarrow> ptr option" where
  "best_fit_loop s sz curr_cell best_fit =
     (if curr_cell \<noteq> Head_brk
      then best_fit_loop s sz (next (cells s curr_cell)) (best_fit_step s sz curr_cell best_fit)
      else Some best_fit)"

declare best_fit_loop.simps [code]

definition search_best_fit :: "state \<Rightarrow> 64 word \<Rightarrow> (addr \<times> state) result option" where
  "search_best_fit s sz =
     (case best_fit_loop s sz (next (cells s Head_brk)) Null of
        None \<Rightarrow> None
      | Some best_fit \<Rightarrow>
          if best_fit \<noteq> Null
          then (let s1 = delete_meta_cell_brk s best_fit;
                    s2 = snd (add_meta_cell_brk s1 (prev (cells s1 best_fit)) best_fit
                                (SIZE_ALIGN sz) STATUS_ALLOC)
                in case use_unused_space s2 best_fit (size' (cells s2 best_fit)) of
                     Died msg \<Rightarrow> Some (Died msg)
                   | Fault e \<Rightarrow> Some (Fault e)
                   | Ok s3 \<Rightarrow> Some (Ok (addr_of best_fit + META_DATA_SIZE, s3)))
          else Some (Ok (0, s)))"

definition increase_heap :: "state \<Rightarrow> 64 word \<Rightarrow> (addr \<times> state) result" where
  "increase_heap s sz =
     (let last_cell = prev (cells s Head_brk)
      in if status (cells s last_cell) = STATUS_FREE
         then (let last_addr = addr_of last_cell + META_DATA_SIZE + size' (cells s last_cell);
                   (stop, s1) = sbrk s 0
               in if stop = - 1 then Died ''sbrk''
                  else (let rem_size = SIZE_ALIGN sz - size' (cells s1 last_cell)
                                         - (stop - last_addr);
                            (ret_sbrk, s2) = sbrk s1 rem_size
                        in if ret_sbrk = - 1 then Died ''sbrk''
                           else (let s3 = delete_meta_cell_brk s2 last_cell
                                 in Ok (add_meta_cell_brk s3 (prev (cells s3 last_cell))
                                          last_cell (SIZE_ALIGN sz) STATUS_ALLOC))))
         else (let total_size = META_DATA_SIZE + SIZE_ALIGN sz;
                   (start, s1) = sbrk s total_size
               in if start = - 1 then Died ''sbrk''
                  else Ok (add_meta_cell_brk s1 last_cell (Cell start)
                             (SIZE_ALIGN sz) STATUS_ALLOC)))"

section \<open>The four operations\<close>

definition os_malloc :: "state \<Rightarrow> 64 word \<Rightarrow> (addr \<times> state) result option" where
  "os_malloc s sz =
     (if sz = 0 then Some (Ok (0, s))
      else if sz \<ge> BRK_LIMIT then Some (add_meta_cell_mmap s sz)
      else
        bindR (Some (if size' (cells s Head_brk) = 0 then heap_preallocation s else Ok s))
          (\<lambda>s1. bindR (coalesce_blocks s1)
          (\<lambda>s2. bindR (search_best_fit s2 sz)
          (\<lambda>(return_addr, s3).
             if return_addr = 0 then Some (increase_heap s3 sz)
             else Some (Ok (return_addr, s3))))))"

definition os_free :: "state \<Rightarrow> addr \<Rightarrow> state" where
  "os_free s p =
     (if p = 0 then s
      else
        let cell_addr = Cell (p - META_DATA_SIZE);
            s1 = (if status (cells s cell_addr) = STATUS_ALLOC
                  then set_status s cell_addr STATUS_FREE else s)
        in if status (cells s1 cell_addr) = STATUS_MAPPED
           then delete_meta_cell_mmap s1 cell_addr
           else s1)"

definition os_calloc :: "state \<Rightarrow> 64 word \<Rightarrow> 64 word \<Rightarrow> (addr \<times> state) result option" where
  "os_calloc s nmemb sz =
     (let page_size = (if pagesize s > 4080 then 4080 else pagesize s);
          total_size = nmemb * sz
      in if total_size = 0 then Some (Ok (0, s))
         else
           bindR
             (if total_size \<ge> page_size then Some (add_meta_cell_mmap s total_size)
              else
                bindR (Some (if size' (cells s Head_brk) = 0 then heap_preallocation s else Ok s))
                  (\<lambda>s1. bindR (coalesce_blocks s1)
                  (\<lambda>s2. bindR (search_best_fit s2 total_size)
                  (\<lambda>(return_addr, s3).
                     if return_addr = 0 then Some (increase_heap s3 total_size)
                     else Some (Ok (return_addr, s3))))))
             (\<lambda>(return_addr, s4).
                bindR (Some (memset s4 return_addr 0 (SIZE_ALIGN total_size)))
                  (\<lambda>s5. Some (Ok (return_addr, s5)))))"

text \<open>
  \<^verbatim>\<open>os_realloc\<close>, the part for a header that is ALLOCATED and a size below the
  limit (the truncate and extend cases). It gives the address to return and the
  state in which the status of the header is looked at again.
\<close>

definition os_realloc_heap :: "state \<Rightarrow> addr \<Rightarrow> ptr \<Rightarrow> 64 word \<Rightarrow> (addr \<times> state) result option" where
  "os_realloc_heap s p cell_addr sz =
     (if SIZE_ALIGN sz \<le> size' (cells s cell_addr)
      then (let s1 = set_size s cell_addr (SIZE_ALIGN sz)
            in bindR (Some (use_unused_space s1 cell_addr (SIZE_ALIGN sz)))
                 (\<lambda>s2. Some (Ok (p, s2))))
      else (let old_size = size' (cells s cell_addr)
            in bindR (coalesce_block s cell_addr)
                 (\<lambda>s1.
                    if size' (cells s1 cell_addr) \<ge> SIZE_ALIGN sz
                    then (let s2 = set_size s1 cell_addr (SIZE_ALIGN sz);
                              s3 = set_status s2 cell_addr STATUS_ALLOC
                          in bindR (Some (use_unused_space s3 cell_addr
                                            (SIZE_ALIGN (size' (cells s3 cell_addr)))))
                               (\<lambda>s4. Some (Ok (p, s4))))
                    else if next (cells s1 cell_addr) = Head_brk
                            \<and> old_size = size' (cells s1 cell_addr)
                    then (let total_size = SIZE_ALIGN sz - size' (cells s1 cell_addr);
                              (sbrk_addr, s2) = sbrk s1 total_size
                          in if sbrk_addr = - 1 then Some (Died ''sbrk'')
                             else (let s3 = set_size s2 cell_addr (SIZE_ALIGN sz)
                                   in Some (Ok (addr_of cell_addr + META_DATA_SIZE, s3))))
                    else bindR (os_malloc s1 sz)
                           (\<lambda>(return_addr, s2).
                              let s3 = set_status s2 cell_addr STATUS_FREE
                              in bindR (Some (memcpy s3 return_addr
                                                (addr_of cell_addr + META_DATA_SIZE)
                                                (size' (cells s3 cell_addr))))
                                   (\<lambda>s4. Some (Ok (return_addr, s4)))))))"

text \<open>The part for a header that is MAPPED.\<close>

definition os_realloc_mapped :: "state \<Rightarrow> ptr \<Rightarrow> 64 word \<Rightarrow> (addr \<times> state) result option" where
  "os_realloc_mapped s cell_addr sz =
     (if sz \<ge> BRK_LIMIT
      then bindR (Some (add_meta_cell_mmap s sz))
             (\<lambda>(return_addr, s1).
                bindR (Some (memcpy s1 return_addr (addr_of cell_addr + META_DATA_SIZE) sz))
                  (\<lambda>s2. Some (Ok (return_addr, delete_meta_cell_mmap s2 cell_addr))))
      else bindR (os_malloc s sz)
             (\<lambda>(return_addr, s1).
                bindR (Some (memcpy s1 return_addr (addr_of cell_addr + META_DATA_SIZE) sz))
                  (\<lambda>s2. Some (Ok (return_addr, delete_meta_cell_mmap s2 cell_addr)))))"

definition os_realloc :: "state \<Rightarrow> addr \<Rightarrow> 64 word \<Rightarrow> (addr \<times> state) result option" where
  "os_realloc s p sz =
     (if p = 0
      then (if sz \<ge> BRK_LIMIT then Some (add_meta_cell_mmap s sz) else os_malloc s sz)
      else if sz = 0 then Some (Ok (0, os_free s p))
      else
        let cell_addr = Cell (p - META_DATA_SIZE)
        in if status (cells s cell_addr) = STATUS_FREE then Some (Ok (0, s))
           else if status (cells s cell_addr) = STATUS_ALLOC \<and> sz \<ge> BRK_LIMIT
           then (let s1 = set_status s cell_addr STATUS_FREE
                 in bindR (Some (add_meta_cell_mmap s1 sz))
                      (\<lambda>(return_addr, s2).
                         bindR (Some (memcpy s2 return_addr
                                        (addr_of cell_addr + META_DATA_SIZE)
                                        (size' (cells s2 cell_addr))))
                           (\<lambda>s3. Some (Ok (return_addr, s3)))))
           else
             bindR (if status (cells s cell_addr) = STATUS_ALLOC
                    then os_realloc_heap s p cell_addr sz
                    else Some (Ok (0, s)))
               (\<lambda>(return_addr, s1).
                  if status (cells s1 cell_addr) = STATUS_MAPPED
                  then os_realloc_mapped s1 cell_addr sz
                  else Some (Ok (return_addr, s1))))"

section \<open>A process that has not called the allocator yet\<close>

text \<open>
  The two globals are zero, as C initialises them. The break (where the heap
  starts), its limit, the addresses of the mappings and the bytes in memory
  are an example of what a kernel may give.
\<close>

definition init_state :: state where
  "init_state =
     \<lparr>cells = (\<lambda>_. \<lparr>size' = 0, status = 0, prev = Null, next = Null\<rparr>),
      bytes = (\<lambda>_. 0xAA),
      brk = 0x10000000,
      brk_max = 0x20000000,
      heap_base = 0x10000000,
      mmap_ret = (\<lambda>n. 0x7F0000000000 + 0x10000000 * of_nat n),
      mmap_calls = 0,
      maps = [],
      pagesize = 4096,
      trace = []\<rparr>"

section \<open>Observing a call, and example states\<close>

text \<open>The address a call returned, and the state it left.\<close>

definition ret_addr :: "(addr \<times> state) result option \<Rightarrow> addr option" where
  "ret_addr r = (case r of Some (Ok (p, s)) \<Rightarrow> Some p | _ \<Rightarrow> None)"

definition state_of :: "(addr \<times> state) result option \<Rightarrow> state" where
  "state_of r = (case r of Some (Ok (p, s)) \<Rightarrow> s | _ \<Rightarrow> init_state)"

text \<open>After \<^verbatim>\<open>os_malloc(100)\<close>: an ALLOCATED block followed by a FREE one.\<close>

definition heap_example :: state where
  "heap_example = state_of (os_malloc init_state 100)"

text \<open>After \<^verbatim>\<open>os_malloc(131040)\<close>: one ALLOCATED block that ends at the break.\<close>

definition full_state :: state where
  "full_state = state_of (os_malloc init_state 131040)"

text \<open>
  After \<^verbatim>\<open>os_malloc(131032)\<close>: one ALLOCATED block, and 8 bytes between its
  end and the break, too few for a header.
\<close>

definition slack_state :: state where
  "slack_state = state_of (os_malloc init_state 131032)"

text \<open>After \<^verbatim>\<open>os_malloc(131072)\<close>: one MAPPED block.\<close>

definition mapped_state :: state where
  "mapped_state = state_of (os_malloc init_state 131072)"

text \<open>
  A heap with FREE blocks of 104, 104 and 64 bytes between ALLOCATED ones, and
  the FREE rest of the pool at the end.
\<close>

definition frag_state :: state where
  "frag_state =
     (let s1 = state_of (os_malloc init_state 100);
          s2 = state_of (os_malloc s1 200);
          s3 = state_of (os_malloc s2 100);
          s4 = state_of (os_malloc s3 300);
          s5 = state_of (os_malloc s4 60);
          s6 = state_of (os_malloc s5 10)
      in os_free (os_free (os_free s6 0x10000020) 0x10000190) 0x10000368)"

section \<open>Well-formed heap lists\<close>

text \<open>
  A header of the heap list lives at an address, and its payload address is not
  the null pointer.
\<close>

fun is_cell :: "ptr \<Rightarrow> bool" where
  "is_cell (Cell a) = (a + META_DATA_SIZE \<noteq> 0)"
| "is_cell _ = False"

text \<open>
  \<open>chain h p cs\<close>: following \<^verbatim>\<open>next\<close> from \<open>p\<close> visits the headers \<open>cs\<close> in order and
  then the sentinel, and \<^verbatim>\<open>prev\<close> leads back. \<open>heap_list s cs\<close>: the heap list of
  state \<open>s\<close> is the circular list of the distinct headers \<open>cs\<close>.
\<close>

fun chain :: "(ptr \<Rightarrow> block_meta) \<Rightarrow> ptr \<Rightarrow> ptr list \<Rightarrow> bool" where
  "chain h p [] = (next (h p) = Head_brk \<and> prev (h Head_brk) = p)"
| "chain h p (c # cs) = (next (h p) = c \<and> prev (h c) = p \<and> chain h c cs)"

definition heap_list :: "state \<Rightarrow> ptr list \<Rightarrow> bool" where
  "heap_list s cs = (chain (cells s) Head_brk cs \<and> distinct cs \<and> list_all is_cell cs)"

text \<open>
  The heap can serve a request: either \<^verbatim>\<open>heap_preallocation\<close> has not run yet
  (the sentinel's size is still 0), or the heap list is well formed.
\<close>

definition heap_ready :: "state \<Rightarrow> ptr list \<Rightarrow> bool" where
  "heap_ready s cs =
     (size' (cells s Head_brk) = 0
      \<or> (heap_list s cs \<and> status (cells s Head_brk) \<noteq> STATUS_FREE))"

text \<open>
  The steps that \<^verbatim>\<open>os_malloc\<close> and \<^verbatim>\<open>os_calloc\<close> both take for a request served
  from the heap: preallocate on first use, coalesce, search, extend on a miss.
\<close>

definition heap_path :: "state \<Rightarrow> 64 word \<Rightarrow> (addr \<times> state) result option" where
  "heap_path s sz =
     bindR (Some (if size' (cells s Head_brk) = 0 then heap_preallocation s else Ok s))
       (\<lambda>s1. bindR (coalesce_blocks s1)
       (\<lambda>s2. bindR (search_best_fit s2 sz)
       (\<lambda>(return_addr, s3).
          if return_addr = 0 then Some (increase_heap s3 sz)
          else Some (Ok (return_addr, s3)))))"

text \<open>
  The first two of these steps give the state in which \<^verbatim>\<open>os_malloc\<close> and
  \<^verbatim>\<open>os_calloc\<close> call \<^verbatim>\<open>search_best_fit\<close>; \<open>searched s\<close> is that state when the
  two steps return.
\<close>

definition search_state :: "state \<Rightarrow> state result option" where
  "search_state s =
     bindR (Some (if size' (cells s Head_brk) = 0 then heap_preallocation s else Ok s))
       coalesce_blocks"

definition searched :: "state \<Rightarrow> state" where
  "searched s = (case search_state s of Some (Ok s2) \<Rightarrow> s2 | _ \<Rightarrow> s)"

text \<open>\<open>block_at s p st n\<close>: the header in front of the payload \<open>p\<close> has status \<open>st\<close> and size \<open>n\<close>.\<close>

definition block_at :: "state \<Rightarrow> addr \<Rightarrow> int \<Rightarrow> 64 word \<Rightarrow> bool" where
  "block_at s p st n =
     (status (cells s (Cell (p - META_DATA_SIZE))) = st
      \<and> size' (cells s (Cell (p - META_DATA_SIZE))) = n)"

text \<open>
  \<open>same_kernel s s'\<close>: nothing but headers and the break differs between the two
  states. \<open>relinked s s'\<close>: moreover the break and every status are the same.
\<close>

definition same_kernel :: "state \<Rightarrow> state \<Rightarrow> bool" where
  "same_kernel s s' = (bytes s' = bytes s \<and> brk_max s' = brk_max s
     \<and> heap_base s' = heap_base s \<and> mmap_ret s' = mmap_ret s
     \<and> mmap_calls s' = mmap_calls s \<and> maps s' = maps s
     \<and> pagesize s' = pagesize s \<and> trace s' = trace s)"

definition relinked :: "state \<Rightarrow> state \<Rightarrow> bool" where
  "relinked s s' = (same_kernel s s' \<and> brk s' = brk s
     \<and> (\<forall>q. status (cells s' q) = status (cells s q)))"

section \<open>Where the blocks of the heap lie\<close>

text \<open>
  \<open>start_of e cs\<close>: the address at which the first header of \<open>cs\<close> stands, and
  \<open>e\<close> when there is none. \<open>laid_out h e cs\<close>: every header of \<open>cs\<close> stands at a
  multiple of 8, and the block it describes (header and payload) ends at or
  before the header that follows, the last one at or before \<open>e\<close>.
  \<open>coalesced h e cs\<close>: every FREE block of \<open>cs\<close> ends exactly where the header
  that follows stands, the last one at \<open>e\<close>; this is how \<^verbatim>\<open>coalesce_blocks\<close>
  leaves the FREE blocks.
\<close>

fun start_of :: "nat \<Rightarrow> ptr list \<Rightarrow> nat" where
  "start_of e [] = e"
| "start_of e (c # cs) = unat (addr_of c)"

fun laid_out :: "(ptr \<Rightarrow> block_meta) \<Rightarrow> nat \<Rightarrow> ptr list \<Rightarrow> bool" where
  "laid_out h e [] = True"
| "laid_out h e (c # cs) =
     (8 dvd unat (addr_of c)
      \<and> unat (addr_of c) + unat META_DATA_SIZE + unat (size' (h c)) \<le> start_of e cs
      \<and> laid_out h e cs)"

fun coalesced :: "(ptr \<Rightarrow> block_meta) \<Rightarrow> nat \<Rightarrow> ptr list \<Rightarrow> bool" where
  "coalesced h e [] = True"
| "coalesced h e (c # cs) =
     ((status (h c) = STATUS_FREE \<longrightarrow>
         unat (addr_of c) + unat META_DATA_SIZE + unat (size' (h c)) = start_of e cs)
      \<and> coalesced h e cs)"

text \<open>
  \<open>heap_safe s cs\<close>: the heap can serve a request, the break is a multiple of 8,
  and the blocks of the heap list lie one after the other between the start of
  the heap and the break.
\<close>

definition heap_safe :: "state \<Rightarrow> ptr list \<Rightarrow> bool" where
  "heap_safe s cs =
     (heap_ready s cs \<and> 8 dvd unat (brk s)
      \<and> (if size' (cells s Head_brk) = 0 then heap_base s \<le> brk s
         else laid_out (cells s) (unat (brk s)) cs
              \<and> unat (heap_base s) \<le> start_of (unat (brk s)) cs))"

section \<open>Best fit, as the specification words it\<close>

text \<open>
  A block fits when it is FREE and its size is at least the aligned request.
  \<open>is_best_fit s sz cs b\<close>: \<open>b\<close> is a block of the list that fits, no block that
  fits is smaller, and every block that fits and comes before \<open>b\<close> is larger.
\<close>

definition fits :: "state \<Rightarrow> 64 word \<Rightarrow> ptr \<Rightarrow> bool" where
  "fits s sz c = (status (cells s c) = STATUS_FREE \<and> SIZE_ALIGN sz \<le> size' (cells s c))"

definition is_best_fit :: "state \<Rightarrow> 64 word \<Rightarrow> ptr list \<Rightarrow> ptr \<Rightarrow> bool" where
  "is_best_fit s sz cs b =
     (b \<in> set cs \<and> fits s sz b
      \<and> list_all (\<lambda>c. fits s sz c \<longrightarrow> size' (cells s b) \<le> size' (cells s c)) cs
      \<and> list_all (\<lambda>c. fits s sz c \<longrightarrow> size' (cells s b) < size' (cells s c))
            (takeWhile (\<lambda>c. c \<noteq> b) cs))"

text \<open>
  The test the loop of \<^verbatim>\<open>search_best_fit\<close> makes compares with the size as
  requested. On blocks whose size is a multiple of 8 it is the same test.
\<close>

definition fits_raw :: "state \<Rightarrow> 64 word \<Rightarrow> ptr \<Rightarrow> bool" where
  "fits_raw s sz c = (status (cells s c) = STATUS_FREE \<and> sz \<le> size' (cells s c))"

definition aligned_free :: "state \<Rightarrow> ptr \<Rightarrow> bool" where
  "aligned_free s c = (status (cells s c) = STATUS_FREE \<longrightarrow> 8 dvd unat (size' (cells s c)))"

section \<open>Evaluation and arithmetic\<close>

lemma bindR_weak_cong: "m = m' \<Longrightarrow> bindR m f = bindR m' f"
  by simp

lemma bindR_simps:
  "bindR None f = None"
  "bindR (Some (Died msg)) f = Some (Died msg)"
  "bindR (Some (Fault e)) f = Some (Fault e)"
  "bindR (Some (Ok x)) f = f x"
  by (simp_all add: bindR_def)

lemmas prims = set_status_def set_size_def set_next_def set_prev_def sbrk_def mmap_def
  munmap_def covers_def accessible_def memcpy_def memset_def STATUS_FREE_def STATUS_ALLOC_def STATUS_MAPPED_def
  sizeof_TBlock_meta_def BRK_LIMIT_def ALIGNMENT_def SIZE_ALIGN_def META_DATA_SIZE_def
  MAP_FAILED_def

lemmas ops = init_list_mmap_def add_meta_cell_mmap_def delete_meta_cell_mmap_def
  init_list_brk_def add_meta_cell_brk_def delete_meta_cell_brk_def heap_preallocation_def
  coalesce_loop.simps coalesce_block_def coalesce_blocks_loop.simps coalesce_blocks_def
  use_unused_space_def best_fit_step_def best_fit_loop.simps search_best_fit_def
  increase_heap_def os_malloc_def os_free_def os_calloc_def os_realloc_heap_def
  os_realloc_mapped_def os_realloc_def

lemmas evalc = let_weak_cong prod.case_cong_weak option.case_cong_weak
  result.case_cong_weak bindR_weak_cong

lemma META_DATA_SIZE_32: "META_DATA_SIZE = 32"
  by (simp add: prims)

lemma and_not_7: "(x :: 64 word) AND NOT 7 = x div 8 * 8"
proof -
  have m: "(7 :: 64 word) = mask 3"
    by (simp add: mask_eq_exp_minus_1)
  have "x AND NOT (mask 3) = push_bit 3 (drop_bit 3 x)"
    by (rule bit_word_eqI) (auto simp: bit_simps)
  then show ?thesis
    by (simp only: m push_bit_eq_mult drop_bit_eq_div) simp
qed

lemma unat_and_not_7: "unat ((x :: 64 word) AND NOT 7) = unat x div 8 * 8"
proof -
  have d: "unat (x div 8) = unat x div 8"
    by (simp add: unat_div)
  have "unat x < 2 ^ 64"
    using unsigned_less [of x, where 'a = nat] by simp
  then have "unat (x div 8) * unat (8 :: 64 word) < 2 ^ LENGTH(64)"
    using d by simp
  then have "unat (x div 8 * 8) = unat (x div 8) * unat (8 :: 64 word)"
    using unat_mult_lem [of "x div 8" "8 :: 64 word"] by blast
  then show ?thesis
    unfolding and_not_7 using d by simp
qed

lemma SIZE_ALIGN_alt: "SIZE_ALIGN sz = (sz + 7) AND NOT 7"
  by (simp add: SIZE_ALIGN_def ALIGNMENT_def)

lemma unat_SIZE_ALIGN:
  "unat sz \<le> 2 ^ 64 - 8 \<Longrightarrow> unat (SIZE_ALIGN sz) = (unat sz + 7) div 8 * 8"
proof -
  assume a: "unat sz \<le> 2 ^ 64 - 8"
  have "unat (sz + 7) = unat sz + 7"
    using a unat_add_lem [of sz 7] by simp
  then show ?thesis
    unfolding SIZE_ALIGN_alt unat_and_not_7 by simp
qed

lemma SIZE_ALIGN_below_limit: "sz < BRK_LIMIT \<Longrightarrow> SIZE_ALIGN sz \<le> BRK_LIMIT"
proof -
  assume "sz < BRK_LIMIT"
  then have b: "unat sz < 131072"
    by (simp add: BRK_LIMIT_def word_less_nat_alt)
  then have "unat (SIZE_ALIGN sz) = (unat sz + 7) div 8 * 8"
    by (intro unat_SIZE_ALIGN) simp
  then have "unat (SIZE_ALIGN sz) \<le> 131072"
    using b by simp
  then show ?thesis
    by (simp add: BRK_LIMIT_def word_le_nat_alt)
qed

lemma sint_eq_uint_small:
  "uint w < 2 ^ (LENGTH('a) - Suc 0) \<Longrightarrow> sint w = uint w" for w :: "'a::len word"
proof -
  assume u: "uint w < 2 ^ (LENGTH('a) - Suc 0)"
  have "- (2 ^ (LENGTH('a) - Suc 0)) \<le> (0::int)"
    by simp
  also have "0 \<le> uint w"
    by simp
  finally have l: "- (2 ^ (LENGTH('a) - Suc 0)) \<le> uint w" .
  show ?thesis
    unfolding sint_uint by (rule signed_take_bit_int_eq_self [OF l u])
qed

lemma sint_small: "x \<le> BRK_LIMIT \<Longrightarrow> sint x = uint x"
proof -
  assume "x \<le> BRK_LIMIT"
  then have "uint x \<le> 131072"
    by (simp add: word_le_def BRK_LIMIT_def)
  then have "uint x < 2 ^ (LENGTH(64) - Suc 0)"
    by simp
  then show ?thesis
    by (rule sint_eq_uint_small)
qed

lemma coalesce_loop_at_head: "coalesce_loop s Head_brk = Some (Head_brk, s)"
  by (subst coalesce_loop.simps) simp

lemma set_next_same: "next (cells s c) = v \<Longrightarrow> set_next s c v = s"
  unfolding set_next_def by (drule sym) simp

lemma set_size_same: "size' (cells s c) = v \<Longrightarrow> set_size s c v = s"
  unfolding set_size_def by (drule sym) simp

lemma status_distinct:
  "STATUS_ALLOC \<noteq> STATUS_FREE" "STATUS_ALLOC \<noteq> STATUS_MAPPED" "STATUS_FREE \<noteq> STATUS_MAPPED"
  "STATUS_FREE \<noteq> STATUS_ALLOC" "STATUS_MAPPED \<noteq> STATUS_ALLOC" "STATUS_MAPPED \<noteq> STATUS_FREE"
  by (simp_all add: STATUS_ALLOC_def STATUS_FREE_def STATUS_MAPPED_def)

section \<open>The heap list under the loops\<close>

lemma is_cell_not_head: "is_cell c \<Longrightarrow> c \<noteq> Head_brk \<and> c \<noteq> Null"
  by (cases c) simp_all

lemma is_cell_addr: "is_cell c \<Longrightarrow> c = Cell (addr_of c) \<and> addr_of c + META_DATA_SIZE \<noteq> 0"
  by (cases c) simp_all

lemma list_all_cell_not_head: "list_all is_cell cs \<Longrightarrow> Head_brk \<notin> set cs \<and> Null \<notin> set cs"
  by (induction cs) (auto dest: is_cell_not_head)

lemma chain_cong:
  "\<lbrakk>\<And>q. q \<in> insert p (set cs) \<Longrightarrow> next (h' q) = next (h q);
    \<And>q. q \<in> insert Head_brk (set cs) \<Longrightarrow> prev (h' q) = prev (h q)\<rbrakk>
   \<Longrightarrow> chain h' p cs = chain h p cs"
proof (induction cs arbitrary: p)
  case Nil
  then show ?case by simp
next
  case (Cons c cs)
  have "chain h' c cs = chain h c cs"
    by (rule Cons.IH) (auto intro: Cons.prems)
  then show ?case
    using Cons.prems by simp
qed

lemma chain_mid:
  "chain h p (xs @ c # ys) \<Longrightarrow> prev (h c) = last (p # xs) \<and> next (h c) = hd (ys @ [Head_brk])"
proof (induction xs arbitrary: p)
  case Nil
  then show ?case by (cases ys) simp_all
next
  case (Cons x xs)
  from Cons.prems have "chain h x (xs @ c # ys)"
    by simp
  from Cons.IH [OF this] show ?case
    by simp
qed

lemma chain_first: "chain h p cs \<Longrightarrow> next (h p) = hd (cs @ [Head_brk])"
  by (cases cs) simp_all

lemma chain_last: "chain h p cs \<Longrightarrow> prev (h Head_brk) = last (p # cs)"
  by (induction cs arbitrary: p) simp_all

text \<open>What unlinking and linking do to each field.\<close>

lemma delete_fields:
  "next (cells (delete_meta_cell_brk s c) q)
     = (if q = prev (cells s c) then next (cells s c) else next (cells s q))"
  "prev (cells (delete_meta_cell_brk s c) q)
     = (if q = next (cells s c) then prev (cells s c) else prev (cells s q))"
  "status (cells (delete_meta_cell_brk s c) q) = status (cells s q)"
  "size' (cells (delete_meta_cell_brk s c) q) = size' (cells s q)"
  by (simp_all add: delete_meta_cell_brk_def set_next_def set_prev_def Let_def)

lemma add_fields:
  "next (cells (snd (add_meta_cell_brk s l c sz st)) q)
     = (if q = l then c else if q = c then next (cells s l) else next (cells s q))"
  "prev (cells (snd (add_meta_cell_brk s l c sz st)) q)
     = (if q = next (cells s l) then c else if q = c then l else prev (cells s q))"
  "status (cells (snd (add_meta_cell_brk s l c sz st)) q)
     = (if q = c then st else status (cells s q))"
  "size' (cells (snd (add_meta_cell_brk s l c sz st)) q)
     = (if q = c then SIZE_ALIGN sz else size' (cells s q))"
  "fst (add_meta_cell_brk s l c sz st) = addr_of c + META_DATA_SIZE"
  by (simp_all add: add_meta_cell_brk_def set_next_def set_prev_def set_status_def set_size_def Let_def)

lemma chain_delete:
  assumes "chain (cells s) p (xs @ c # ys)" "distinct (p # xs @ c # ys)"
    "Head_brk \<notin> set (xs @ c # ys)"
  shows "chain (cells (delete_meta_cell_brk s c)) p (xs @ ys)"
  using assms
proof (induction xs arbitrary: p)
  case Nil
  let ?h2 = "cells (delete_meta_cell_brk s c)"
  from Nil have c: "next (cells s p) = c" "prev (cells s c) = p" "chain (cells s) c ys"
    by simp_all
  show ?case
  proof (cases ys)
    case Nil
    with c show ?thesis
      by (simp add: delete_fields)
  next
    case (Cons y ys')
    with c have y: "next (cells s c) = y" "prev (cells s y) = c" "chain (cells s) y ys'"
      by simp_all
    have "chain ?h2 y ys' = chain (cells s) y ys'"
      using Nil.prems(2,3) c y Cons by (intro chain_cong) (auto simp: delete_fields)
    with y c Cons show ?thesis
      by (simp add: delete_fields)
  qed
next
  case (Cons x xs)
  let ?h2 = "cells (delete_meta_cell_brk s c)"
  from Cons.prems have c: "next (cells s p) = x" "prev (cells s x) = p"
    "chain (cells s) x (xs @ c # ys)"
    by simp_all
  from chain_mid [OF c(3)] have m: "prev (cells s c) = last (x # xs)"
    "next (cells s c) = hd (ys @ [Head_brk])"
    by simp_all
  have ih: "chain ?h2 x (xs @ ys)"
    using Cons.prems by (intro Cons.IH c) auto
  have "last (x # xs) \<in> set (x # xs)"
    by (rule last_in_set) simp
  then have 1: "p \<noteq> prev (cells s c)"
    using Cons.prems(2) m by auto
  have "hd (ys @ [Head_brk]) \<in> set ys \<union> {Head_brk}"
    by (cases ys) simp_all
  then have 2: "x \<noteq> next (cells s c)"
    using Cons.prems(2,3) m by auto
  show ?case
    using ih 1 2 c by (simp add: delete_fields)
qed

lemma heap_list_delete:
  assumes "heap_list s (xs @ c # ys)"
  shows "heap_list (delete_meta_cell_brk s c) (xs @ ys)"
proof -
  from assms have "Head_brk \<notin> set (xs @ c # ys)"
    unfolding heap_list_def using list_all_cell_not_head by blast
  with assms show ?thesis
    unfolding heap_list_def by (auto intro!: chain_delete)
qed

lemma relinked_refl: "relinked s s"
  by (simp add: relinked_def same_kernel_def)

lemma relinked_trans: "relinked s s1 \<Longrightarrow> relinked s1 s2 \<Longrightarrow> relinked s s2"
  by (simp add: relinked_def same_kernel_def)

lemma relinked_delete: "relinked s (delete_meta_cell_brk s c)"
  by (simp add: relinked_def same_kernel_def delete_fields)
    (simp add: delete_meta_cell_brk_def set_next_def set_prev_def Let_def)

lemma relinked_set_size: "relinked s (set_size s c v)"
  by (simp add: relinked_def same_kernel_def set_size_def)

lemma heap_list_set_size: "heap_list (set_size s c v) cs = heap_list s cs"
proof -
  have "chain (cells (set_size s c v)) Head_brk cs = chain (cells s) Head_brk cs"
    by (rule chain_cong) (simp_all add: set_size_def)
  then show ?thesis
    by (simp add: heap_list_def)
qed

lemma heap_list_mid:
  assumes "heap_list s (xs @ c # ys)"
  shows "next (cells s c) = hd (ys @ [Head_brk])" "c \<noteq> Head_brk" "is_cell c"
    "prev (cells s c) = last (Head_brk # xs)"
  using assms chain_mid [of "cells s" Head_brk xs c ys]
  by (auto simp: heap_list_def dest: is_cell_not_head)

lemma coalesce_loop_list:
  assumes "heap_list s (xs @ c # ys)"
  shows "\<exists>s'. coalesce_loop s (hd (ys @ [Head_brk]))
            = Some (hd (dropWhile (\<lambda>q. status (cells s q) = STATUS_FREE) ys @ [Head_brk]), s')
          \<and> heap_list s' (xs @ c # dropWhile (\<lambda>q. status (cells s q) = STATUS_FREE) ys)
          \<and> relinked s s' \<and> (\<forall>q. size' (cells s' q) = size' (cells s q))"
  using assms
proof (induction ys arbitrary: s)
  case Nil
  then show ?case
    by (simp add: coalesce_loop_at_head relinked_refl)
next
  case (Cons y ys)
  have hy: "heap_list s ((xs @ [c]) @ y # ys)"
    using Cons.prems by simp
  note my = heap_list_mid [OF hy]
  show ?case
  proof (cases "status (cells s y) = STATUS_FREE")
    case True
    let ?s1 = "delete_meta_cell_brk s y"
    have h1: "heap_list ?s1 (xs @ c # ys)"
      using heap_list_delete [OF hy] by simp
    have "y \<noteq> c"
      using Cons.prems by (auto simp: heap_list_def)
    then have nx: "next (cells ?s1 y) = hd (ys @ [Head_brk])"
      using my by (simp add: delete_fields)
    have dw: "dropWhile (\<lambda>q. status (cells ?s1 q) = STATUS_FREE) ys
                = dropWhile (\<lambda>q. status (cells s q) = STATUS_FREE) ys"
      by (simp add: delete_fields)
    from Cons.IH [OF h1] obtain s' where
      s': "coalesce_loop ?s1 (hd (ys @ [Head_brk]))
            = Some (hd (dropWhile (\<lambda>q. status (cells s q) = STATUS_FREE) ys @ [Head_brk]), s')"
        "heap_list s' (xs @ c # dropWhile (\<lambda>q. status (cells s q) = STATUS_FREE) ys)"
        "relinked ?s1 s'" "\<forall>q. size' (cells s' q) = size' (cells ?s1 q)"
      unfolding dw by blast
    have "coalesce_loop s y = coalesce_loop ?s1 (hd (ys @ [Head_brk]))"
      using True my(2) nx by (subst coalesce_loop.simps) simp
    with s' True show ?thesis
      by (auto intro: relinked_trans [OF relinked_delete] simp: delete_fields)
  next
    case False
    then have "coalesce_loop s y = Some (y, s)"
      by (subst coalesce_loop.simps) simp
    with False Cons.prems show ?thesis
      by (simp add: relinked_refl)
  qed
qed

lemma hd_is_head: "list_all is_cell r \<Longrightarrow> hd (r @ [Head_brk]) = Head_brk \<longleftrightarrow> r = []"
  by (cases r) (auto dest: is_cell_not_head)

lemma stop_of_rest:
  "(case r of [] \<Rightarrow> b | d # ds \<Rightarrow> addr_of d)
     = (if r = [] then b else addr_of (hd (r @ [Head_brk])))"
  by (cases r) simp_all

lemma coalesce_block_list:
  assumes "heap_list s (xs @ c # ys)"
  shows "\<exists>r. coalesce_block s c = Some r
          \<and> (brk s \<noteq> - 1 \<longrightarrow> r \<noteq> Died ''sbrk'')
          \<and> (\<forall>s'. r = Ok s' \<longrightarrow>
                heap_list s' (xs @ c # dropWhile (\<lambda>q. status (cells s q) = STATUS_FREE) ys)
                \<and> relinked s s')
          \<and> (\<forall>m. r = Died m \<longrightarrow> m = ''sbrk'')
          \<and> (\<forall>e. r \<noteq> Fault e)
          \<and> (\<forall>s'. r = Ok s' \<longrightarrow>
                size' (cells s' c)
                  = (case dropWhile (\<lambda>q. status (cells s q) = STATUS_FREE) ys of
                       [] \<Rightarrow> brk s | d # ds \<Rightarrow> addr_of d) - addr_of c - META_DATA_SIZE
                \<and> (\<forall>q. q \<noteq> c \<longrightarrow> size' (cells s' q) = size' (cells s q)))"
proof -
  let ?rest = "dropWhile (\<lambda>q. status (cells s q) = STATUS_FREE) ys"
  from coalesce_loop_list [OF assms] obtain s1 where
    s1: "coalesce_loop s (hd (ys @ [Head_brk])) = Some (hd (?rest @ [Head_brk]), s1)"
      "heap_list s1 (xs @ c # ?rest)" "relinked s s1"
      "\<forall>q. size' (cells s1 q) = size' (cells s q)"
    by blast
  have nx: "next (cells s c) = hd (ys @ [Head_brk])"
    by (rule heap_list_mid [OF assms])
  have nx1: "next (cells s1 c) = hd (?rest @ [Head_brk])"
    by (rule heap_list_mid [OF s1(2)])
  have b: "brk s1 = brk s"
    using s1(3) by (simp add: relinked_def)
  define fc where "fc = hd (?rest @ [Head_brk])"
  define stop where "stop = (case ?rest of [] \<Rightarrow> brk s | d # ds \<Rightarrow> addr_of d)"
  have "list_all is_cell ?rest"
    using s1(2) by (simp add: heap_list_def)
  then have fh: "fc = Head_brk \<longleftrightarrow> ?rest = []"
    unfolding fc_def by (rule hd_is_head)
  have st: "stop = (if fc = Head_brk then brk s else addr_of fc)"
    unfolding stop_def fh unfolding fc_def by (rule stop_of_rest)
  have sn: "set_next s1 c fc = s1"
    using nx1 unfolding fc_def by (rule set_next_same)
  have cb: "coalesce_block s c =
     (if fc = Head_brk \<and> brk s = - 1 then Some (Died ''sbrk'')
      else Some (Ok (set_size s1 c (stop - addr_of c - META_DATA_SIZE))))"
  proof (cases "fc = Head_brk")
    case True
    from sn have "set_next s1 c Head_brk = s1"
      unfolding True .
    then show ?thesis
      unfolding coalesce_block_def nx s1(1) fc_def [symmetric] st
      by (simp add: Let_def sbrk_def b True)
  next
    case False
    then show ?thesis
      unfolding coalesce_block_def nx s1(1) fc_def [symmetric] st
      by (simp add: Let_def sn)
  qed
  let ?s' = "set_size s1 c (stop - addr_of c - META_DATA_SIZE)"
  have "relinked s ?s'"
    by (rule relinked_trans [OF s1(3) relinked_set_size])
  then have ok: "heap_list ?s' (xs @ c # ?rest) \<and> relinked s ?s'"
    using s1(2) by (simp add: heap_list_set_size)
  have sz: "size' (cells ?s' c) = stop - addr_of c - META_DATA_SIZE"
    "\<forall>q. q \<noteq> c \<longrightarrow> size' (cells ?s' q) = size' (cells s q)"
    using s1(4) by (simp_all add: set_size_def)
  show ?thesis
  proof (cases "fc = Head_brk \<and> brk s = - 1")
    case True
    then have "coalesce_block s c = Some (Died ''sbrk'')"
      unfolding cb by simp
    then show ?thesis
      using True by simp
  next
    case False
    then have "coalesce_block s c = Some (Ok ?s')"
      unfolding cb by simp
    then show ?thesis
      using ok sz unfolding stop_def by simp
  qed
qed

lemma coalesce_blocks_loop_list:
  assumes "heap_list s (xs @ ys)"
  shows "\<exists>r. coalesce_blocks_loop s (hd (ys @ [Head_brk])) = Some r
          \<and> (brk s \<noteq> - 1 \<longrightarrow> r \<noteq> Died ''sbrk'')
          \<and> (\<forall>s'. r = Ok s' \<longrightarrow> (\<exists>cs'. heap_list s' cs') \<and> relinked s s')
          \<and> (\<forall>m. r = Died m \<longrightarrow> m = ''sbrk'')
          \<and> (\<forall>e. r \<noteq> Fault e)"
  using assms
proof (induction "length ys" arbitrary: s xs ys rule: less_induct)
  case less
  show ?case
  proof (cases ys)
    case Nil
    have "coalesce_blocks_loop s Head_brk = Some (Ok s)"
      by (subst coalesce_blocks_loop.simps) simp
    with Nil less.prems show ?thesis
      by (auto simp: relinked_refl)
  next
    case (Cons c ys')
    have hl: "heap_list s (xs @ c # ys')"
      using less.prems Cons by simp
    note m = heap_list_mid [OF hl]
    show ?thesis
    proof (cases "status (cells s c) = STATUS_FREE")
      case True
      let ?rest = "dropWhile (\<lambda>q. status (cells s q) = STATUS_FREE) ys'"
      from coalesce_block_list [OF hl] obtain r where
        r: "coalesce_block s c = Some r" "brk s \<noteq> - 1 \<longrightarrow> r \<noteq> Died ''sbrk''"
          "\<forall>s'. r = Ok s' \<longrightarrow> heap_list s' (xs @ c # ?rest) \<and> relinked s s'"
          "\<forall>m. r = Died m \<longrightarrow> m = ''sbrk''" "\<forall>e. r \<noteq> Fault e"
        by blast
      show ?thesis
      proof (cases r)
        case (Died msg)
        have "coalesce_blocks_loop s c = Some (Died msg)"
          using True m(2) r(1) Died by (subst coalesce_blocks_loop.simps) simp
        with r Died Cons show ?thesis
          by simp
      next
        case (Fault e)
        with r(5) show ?thesis
          by simp
      next
        case (Ok s1)
        with r have h1: "heap_list s1 ((xs @ [c]) @ ?rest)" and rl: "relinked s s1"
          by simp_all
        have "next (cells s1 c) = hd (?rest @ [Head_brk])"
          using heap_list_mid(1) [of s1 xs c ?rest] h1 by simp
        then have u: "coalesce_blocks_loop s c = coalesce_blocks_loop s1 (hd (?rest @ [Head_brk]))"
          using True m(2) r(1) Ok by (subst coalesce_blocks_loop.simps) simp
        have "length ?rest < length ys"
          using Cons length_dropWhile_le [of _ ys'] by (simp add: le_imp_less_Suc)
        from less.hyps [OF this h1] obtain r' where
          r': "coalesce_blocks_loop s1 (hd (?rest @ [Head_brk])) = Some r'"
            "brk s1 \<noteq> - 1 \<longrightarrow> r' \<noteq> Died ''sbrk''"
            "\<forall>s'. r' = Ok s' \<longrightarrow> (\<exists>cs'. heap_list s' cs') \<and> relinked s1 s'"
            "\<forall>m. r' = Died m \<longrightarrow> m = ''sbrk''" "\<forall>e. r' \<noteq> Fault e"
          by blast
        have "brk s1 = brk s"
          using rl by (simp add: relinked_def)
        with r' u rl Cons show ?thesis
          by (auto intro: relinked_trans)
      qed
    next
      case False
      have u: "coalesce_blocks_loop s c = coalesce_blocks_loop s (hd (ys' @ [Head_brk]))"
        using False m(1,2) by (subst coalesce_blocks_loop.simps) simp
      have "heap_list s ((xs @ [c]) @ ys')"
        using hl by simp
      from less.hyps [OF _ this] Cons u show ?thesis
        by simp
    qed
  qed
qed

lemma coalesce_blocks_list:
  assumes "heap_list s cs"
  shows "\<exists>r. coalesce_blocks s = Some r
          \<and> (brk s \<noteq> - 1 \<longrightarrow> r \<noteq> Died ''sbrk'')
          \<and> (\<forall>s'. r = Ok s' \<longrightarrow> (\<exists>cs'. heap_list s' cs') \<and> relinked s s')
          \<and> (\<forall>m. r = Died m \<longrightarrow> m = ''sbrk'')
          \<and> (\<forall>e. r \<noteq> Fault e)"
proof -
  have "next (cells s Head_brk) = hd (cs @ [Head_brk])"
    using assms chain_first by (simp add: heap_list_def)
  then show ?thesis
    unfolding coalesce_blocks_def using coalesce_blocks_loop_list [of s "[]" cs] assms
    by simp
qed

lemma best_fit_loop_list:
  assumes "chain (cells s) p cs" "list_all is_cell cs"
  shows "best_fit_loop s sz (hd (cs @ [Head_brk])) b
           = Some (foldl (\<lambda>b c. best_fit_step s sz c b) b cs)"
  using assms
proof (induction cs arbitrary: p b)
  case Nil
  show ?case
    by (subst best_fit_loop.simps) simp
next
  case (Cons c cs)
  then have c: "c \<noteq> Head_brk" "chain (cells s) c cs" "list_all is_cell cs"
    by (auto dest: is_cell_not_head)
  have "next (cells s c) = hd (cs @ [Head_brk])"
    using c(2) by (rule chain_first)
  then have "best_fit_loop s sz c b
      = best_fit_loop s sz (hd (cs @ [Head_brk])) (best_fit_step s sz c b)"
    using c(1) by (subst best_fit_loop.simps) simp
  then show ?case
    using Cons.IH [OF c(2,3)] by simp
qed

lemma le_SIZE_ALIGN_iff:
  assumes "unat sz \<le> 2 ^ 64 - 8" "8 dvd unat c"
  shows "SIZE_ALIGN sz \<le> c \<longleftrightarrow> sz \<le> c"
proof -
  from assms(2) obtain k where k: "unat c = 8 * k"
    by (auto simp: dvd_def)
  have "(unat sz + 7) div 8 < Suc k \<longleftrightarrow> unat sz + 7 < Suc k * 8"
    by (rule div_less_iff_less_mult) simp
  then have "(unat sz + 7) div 8 \<le> k \<longleftrightarrow> unat sz \<le> 8 * k"
    unfolding less_Suc_eq_le by auto
  then have "(unat sz + 7) div 8 * 8 \<le> 8 * k \<longleftrightarrow> unat sz \<le> 8 * k"
    by simp
  then show ?thesis
    by (simp add: word_le_nat_alt unat_SIZE_ALIGN [OF assms(1)] k)
qed

lemma best_fit_step_raw:
  "best_fit_step s sz c b =
     (if fits_raw s sz c \<and> (b = Null \<or> size' (cells s c) < size' (cells s b))
      then c else b)"
  by (auto simp: best_fit_step_def fits_raw_def Let_def)

text \<open>The loop keeps the earliest of the smallest blocks that fit, among those seen.\<close>

lemma best_fit_fold:
  assumes "Null \<notin> set cs"
  shows "(if \<exists>c\<in>set cs. fits_raw s sz c
          then \<exists>pre post. cs = pre @ foldl (\<lambda>b c. best_fit_step s sz c b) Null cs # post
                 \<and> fits_raw s sz (foldl (\<lambda>b c. best_fit_step s sz c b) Null cs)
                 \<and> (\<forall>c\<in>set pre. fits_raw s sz c \<longrightarrow>
                       size' (cells s (foldl (\<lambda>b c. best_fit_step s sz c b) Null cs))
                         < size' (cells s c))
                 \<and> (\<forall>c\<in>set post. fits_raw s sz c \<longrightarrow>
                       size' (cells s (foldl (\<lambda>b c. best_fit_step s sz c b) Null cs))
                         \<le> size' (cells s c))
          else foldl (\<lambda>b c. best_fit_step s sz c b) Null cs = Null)"
  using assms
proof (induction cs rule: rev_induct)
  case Nil
  then show ?case by simp
next
  case (snoc x cs)
  let ?acc = "foldl (\<lambda>b c. best_fit_step s sz c b) Null cs"
  let ?res = "best_fit_step s sz x ?acc"
  have nn: "Null \<notin> set cs"
    using snoc.prems by simp
  note ih = snoc.IH [OF nn]
  note st = best_fit_step_raw [of s sz x]
  show ?case
  proof (cases "\<exists>c\<in>set cs. fits_raw s sz c")
    case False
    then have r0: "?acc = Null"
      using ih by simp
    show ?thesis
    proof (cases "fits_raw s sz x")
      case True
      then have rx: "?res = x"
        by (simp add: st r0)
      have "\<forall>c\<in>set cs. fits_raw s sz c \<longrightarrow> size' (cells s x) < size' (cells s c)"
        using False by blast
      then have "\<exists>pre post. cs @ [x] = pre @ x # post \<and> fits_raw s sz x
          \<and> (\<forall>c\<in>set pre. fits_raw s sz c \<longrightarrow> size' (cells s x) < size' (cells s c))
          \<and> (\<forall>c\<in>set post. fits_raw s sz c \<longrightarrow> size' (cells s x) \<le> size' (cells s c))"
        using True by (intro exI [of _ cs] exI [of _ "[]"]) simp
      then show ?thesis
        using True by (simp add: rx)
    next
      case nf: False
      then have "?res = Null"
        by (auto simp: st r0)
      then show ?thesis
        using False nf by simp
    qed
  next
    case True
    with ih obtain pre post where
      d: "cs = pre @ ?acc # post" "fits_raw s sz ?acc"
        "\<forall>c\<in>set pre. fits_raw s sz c \<longrightarrow> size' (cells s ?acc) < size' (cells s c)"
        "\<forall>c\<in>set post. fits_raw s sz c \<longrightarrow> size' (cells s ?acc) \<le> size' (cells s c)"
      by auto
    have "?acc \<in> set cs"
      by (subst d(1)) simp
    then have r0: "?acc \<noteq> Null"
      using nn by auto
    show ?thesis
    proof (cases "fits_raw s sz x \<and> size' (cells s x) < size' (cells s ?acc)")
      case less: True
      then have rx: "?res = x"
        by (simp add: st)
      have "\<forall>c\<in>set cs. fits_raw s sz c \<longrightarrow> size' (cells s x) < size' (cells s c)"
      proof (intro ballI impI)
        fix c assume c: "c \<in> set cs" "fits_raw s sz c"
        then have "c \<in> set pre \<or> c = ?acc \<or> c \<in> set post"
          by (subst (asm) d(1)) auto
        then have "size' (cells s ?acc) \<le> size' (cells s c)"
          using d c(2) by auto
        with less show "size' (cells s x) < size' (cells s c)"
          by (auto elim: less_le_trans)
      qed
      then have "\<exists>pre post. cs @ [x] = pre @ x # post \<and> fits_raw s sz x
          \<and> (\<forall>c\<in>set pre. fits_raw s sz c \<longrightarrow> size' (cells s x) < size' (cells s c))
          \<and> (\<forall>c\<in>set post. fits_raw s sz c \<longrightarrow> size' (cells s x) \<le> size' (cells s c))"
        using less by (intro exI [of _ cs] exI [of _ "[]"]) simp
      then show ?thesis
        using less by (simp add: rx)
    next
      case nl: False
      then have rr: "?res = ?acc"
        by (auto simp: st r0)
      have e: "cs @ [x] = pre @ ?acc # (post @ [x])"
        by (subst d(1)) simp
      have "\<forall>c\<in>set (post @ [x]). fits_raw s sz c \<longrightarrow> size' (cells s ?acc) \<le> size' (cells s c)"
        using d(4) nl by (auto simp: not_less)
      then have "\<exists>pre' post'. cs @ [x] = pre' @ ?acc # post' \<and> fits_raw s sz ?acc
          \<and> (\<forall>c\<in>set pre'. fits_raw s sz c \<longrightarrow> size' (cells s ?acc) < size' (cells s c))
          \<and> (\<forall>c\<in>set post'. fits_raw s sz c \<longrightarrow> size' (cells s ?acc) \<le> size' (cells s c))"
        using d(2,3) e by blast
      then show ?thesis
        using True by (simp add: rr)
    qed
  qed
qed

section \<open>What a request served from the heap returns\<close>

lemma plus_32_nonzero: "uint (a :: 64 word) < 2 ^ 64 - 32 \<Longrightarrow> a + META_DATA_SIZE \<noteq> 0"
proof
  assume u: "uint a < 2 ^ 64 - 32" and "a + META_DATA_SIZE = 0"
  then have "a = - 32"
    by (simp add: META_DATA_SIZE_32 add_eq_0_iff2)
  then have "uint a = 2 ^ 64 - 32"
    by simp
  with u show False
    by simp
qed

lemma sbrk_grow:
  assumes "sbrk s inc = (a, s')" "a \<noteq> - 1" "inc \<noteq> 0" "inc \<le> BRK_LIMIT + META_DATA_SIZE"
  shows "a = brk s" "s' = s\<lparr>brk := brk s + inc\<rparr>" "uint (brk s) + uint inc < 2 ^ 64"
proof -
  have "uint inc \<le> 131104"
    using assms(4) by (simp add: word_le_def BRK_LIMIT_def META_DATA_SIZE_32)
  then have "uint inc < 2 ^ (LENGTH(64) - Suc 0)"
    by simp
  then have si: "sint inc = uint inc"
    by (rule sint_eq_uint_small)
  have "uint (brk_max s) < 2 ^ 64"
    using uint_lt2p [of "brk_max s"] by simp
  then show "a = brk s" "s' = s\<lparr>brk := brk s + inc\<rparr>" "uint (brk s) + uint inc < 2 ^ 64"
    using assms(1,2,3) by (auto simp: sbrk_def si split: if_splits)
qed

lemma heap_preallocation_list:
  assumes "heap_preallocation s = Ok s'"
  shows "heap_list s' [Cell (brk s)]" "status (cells s' Head_brk) \<noteq> STATUS_FREE"
    "same_kernel s s'"
proof -
  obtain a s2 where sb: "sbrk (init_list_brk s) BRK_LIMIT = (a, s2)"
    by (cases "sbrk (init_list_brk s) BRK_LIMIT")
  with assms have a: "a \<noteq> - 1"
    and s': "s' = snd (add_meta_cell_brk s2 Head_brk (Cell a) (BRK_LIMIT - META_DATA_SIZE) STATUS_FREE)"
    by (auto simp: heap_preallocation_def Let_def split: if_splits)
  have "BRK_LIMIT \<noteq> 0" "BRK_LIMIT \<le> BRK_LIMIT + META_DATA_SIZE"
    by (simp_all add: BRK_LIMIT_def META_DATA_SIZE_32)
  from sbrk_grow [OF sb a this] have g: "a = brk s" "s2 = (init_list_brk s)\<lparr>brk := brk s + BRK_LIMIT\<rparr>"
    "uint (brk s) + uint BRK_LIMIT < 2 ^ 64"
    by (simp_all add: init_list_brk_def set_next_def set_prev_def set_status_def set_size_def Let_def)
  have "uint (brk s) < 2 ^ 64 - 32"
    using g(3) by (simp add: BRK_LIMIT_def)
  then have nz: "brk s + META_DATA_SIZE \<noteq> 0"
    by (rule plus_32_nonzero)
  show "heap_list s' [Cell (brk s)]"
    using nz unfolding s' g heap_list_def
    by (simp add: add_fields init_list_brk_def set_next_def set_prev_def set_status_def
          set_size_def Let_def)
  show "status (cells s' Head_brk) \<noteq> STATUS_FREE"
    unfolding s' g
    by (simp add: add_fields init_list_brk_def set_next_def set_prev_def set_status_def
          set_size_def Let_def STATUS_FREE_def)
  show "same_kernel s s'"
    unfolding s' g same_kernel_def
    by (simp add: add_meta_cell_brk_def init_list_brk_def set_next_def set_prev_def
          set_status_def set_size_def Let_def)
qed


lemma heap_preallocation_Died: "heap_preallocation s = Died m \<Longrightarrow> m = ''sbrk''"
  by (auto simp: heap_preallocation_def Let_def split: if_splits prod.splits)

lemma heap_preallocation_no_Fault: "heap_preallocation s \<noteq> Fault e"
  by (auto simp: heap_preallocation_def Let_def split: if_splits prod.splits)

lemma SIZE_ALIGN_idem: "sz < BRK_LIMIT \<Longrightarrow> SIZE_ALIGN (SIZE_ALIGN sz) = SIZE_ALIGN sz"
proof -
  assume "sz < BRK_LIMIT"
  then have b: "unat sz < 131072"
    by (simp add: BRK_LIMIT_def word_less_nat_alt)
  then have 1: "unat (SIZE_ALIGN sz) = (unat sz + 7) div 8 * 8"
    by (intro unat_SIZE_ALIGN) simp
  then have "unat (SIZE_ALIGN sz) \<le> 2 ^ 64 - 8"
    using b by simp
  then have "unat (SIZE_ALIGN (SIZE_ALIGN sz)) = (unat (SIZE_ALIGN sz) + 7) div 8 * 8"
    by (rule unat_SIZE_ALIGN)
  then have "unat (SIZE_ALIGN (SIZE_ALIGN sz)) = unat (SIZE_ALIGN sz)"
    unfolding 1 by simp
  then show ?thesis
    by (rule word_unat_eq_iff [THEN iffD2])
qed

lemma payload_end_differs:
  assumes "x \<le> BRK_LIMIT"
  shows "a + META_DATA_SIZE + x \<noteq> a"
proof -
  have "unat x \<le> 131072"
    using assms by (simp add: BRK_LIMIT_def word_le_nat_alt)
  then have "unat (32 + x) = 32 + unat x"
    using unat_add_lem [of 32 x] by simp
  then have "32 + x \<noteq> 0"
    by (metis add_is_0 unat_0 zero_neq_numeral)
  then show ?thesis
    by (simp add: META_DATA_SIZE_32 add.assoc)
qed

lemma same_kernel_refl: "same_kernel s s"
  by (simp add: same_kernel_def)

lemma same_kernel_trans: "same_kernel s s1 \<Longrightarrow> same_kernel s1 s2 \<Longrightarrow> same_kernel s s2"
  by (simp add: same_kernel_def)

lemma same_kernel_delete: "same_kernel s (delete_meta_cell_brk s c)"
  "brk (delete_meta_cell_brk s c) = brk s"
  by (simp_all add: same_kernel_def delete_meta_cell_brk_def set_next_def set_prev_def Let_def)

lemma same_kernel_add: "same_kernel s (snd (add_meta_cell_brk s l c sz st))"
  "brk (snd (add_meta_cell_brk s l c sz st)) = brk s"
  by (simp_all add: same_kernel_def add_meta_cell_brk_def set_next_def set_prev_def
        set_status_def set_size_def Let_def)

lemma use_unused_space_result:
  assumes "Cell (addr_of c + META_DATA_SIZE + SIZE_ALIGN u) \<noteq> c"
  shows "(\<forall>m. use_unused_space s c u = Died m \<longrightarrow> m = ''sbrk'' \<and> brk s = - 1)
     \<and> (\<forall>s'. use_unused_space s c u = Ok s' \<longrightarrow>
           status (cells s' c) = status (cells s c) \<and> size' (cells s' c) = size' (cells s c)
           \<and> same_kernel s s' \<and> brk s' = brk s)
     \<and> (\<forall>e. use_unused_space s c u \<noteq> Fault e)"
  using assms
  by (auto simp: use_unused_space_def Let_def sbrk_def add_fields same_kernel_add
        same_kernel_refl split: if_splits)

lemma block_at_cell:
  "is_cell c \<Longrightarrow> block_at s (addr_of c + META_DATA_SIZE) st n
     \<longleftrightarrow> status (cells s c) = st \<and> size' (cells s c) = n"
  by (cases c) (simp_all add: block_at_def)

lemma search_best_fit_found:
  assumes "best_fit_loop s sz (next (cells s Head_brk)) Null = Some b"
    and "is_cell b" "sz < BRK_LIMIT"
  shows "\<exists>r. search_best_fit s sz = Some r
     \<and> (\<forall>m. r = Died m \<longrightarrow> m = ''sbrk'' \<and> brk s = - 1)
     \<and> (\<forall>p s'. r = Ok (p, s') \<longrightarrow>
           p = addr_of b + META_DATA_SIZE \<and> block_at s' p STATUS_ALLOC (SIZE_ALIGN sz)
           \<and> same_kernel s s' \<and> brk s' = brk s)
     \<and> (\<forall>e. r \<noteq> Fault e)"
proof -
  let ?s1 = "delete_meta_cell_brk s b"
  let ?s2 = "snd (add_meta_cell_brk ?s1 (prev (cells ?s1 b)) b (SIZE_ALIGN sz) STATUS_ALLOC)"
  let ?u = "use_unused_space ?s2 b (size' (cells ?s2 b))"
  have al: "SIZE_ALIGN (SIZE_ALIGN sz) = SIZE_ALIGN sz"
    by (rule SIZE_ALIGN_idem [OF assms(3)])
  have f2: "status (cells ?s2 b) = STATUS_ALLOC" "size' (cells ?s2 b) = SIZE_ALIGN sz"
    by (simp_all add: add_fields al)
  have k2: "same_kernel s ?s2" "brk ?s2 = brk s"
    using same_kernel_trans [OF same_kernel_delete(1) same_kernel_add(1)]
    by (simp_all add: same_kernel_add same_kernel_delete)
  have "addr_of b + META_DATA_SIZE + SIZE_ALIGN sz \<noteq> addr_of b"
    by (rule payload_end_differs [OF SIZE_ALIGN_below_limit [OF assms(3)]])
  then have ne: "Cell (addr_of b + META_DATA_SIZE + SIZE_ALIGN (size' (cells ?s2 b))) \<noteq> b"
    unfolding f2 al using is_cell_addr [OF assms(2)] by (metis ptr.inject)
  note uu = use_unused_space_result [OF ne, of ?s2]
  have bn: "b \<noteq> Null"
    using assms(2) by (auto dest: is_cell_not_head)
  have sb: "search_best_fit s sz =
     (case ?u of Died msg \<Rightarrow> Some (Died msg)
      | Fault e \<Rightarrow> Some (Fault e)
      | Ok s3 \<Rightarrow> Some (Ok (addr_of b + META_DATA_SIZE, s3)))"
    unfolding search_best_fit_def assms(1) using bn by (simp add: Let_def)
  show ?thesis
  proof (cases ?u)
    case (Died msg)
    with uu sb k2 show ?thesis
      by simp
  next
    case (Fault e)
    with uu show ?thesis
      by simp
  next
    case (Ok s3)
    with uu have s3: "status (cells s3 b) = status (cells ?s2 b)"
      "size' (cells s3 b) = size' (cells ?s2 b)" "same_kernel ?s2 s3" "brk s3 = brk ?s2"
      by simp_all
    have "block_at s3 (addr_of b + META_DATA_SIZE) STATUS_ALLOC (SIZE_ALIGN sz)"
      using s3(1,2) f2 by (simp add: block_at_cell [OF assms(2)])
    moreover have "same_kernel s s3" "brk s3 = brk s"
      using same_kernel_trans [OF k2(1) s3(3)] s3(4) k2(2) by simp_all
    ultimately show ?thesis
      using sb Ok by simp
  qed
qed

lemma search_best_fit_none:
  "best_fit_loop s sz (next (cells s Head_brk)) Null = Some Null
     \<Longrightarrow> search_best_fit s sz = Some (Ok (0, s))"
  by (simp add: search_best_fit_def)

lemma increase_heap_result:
  assumes "sz < BRK_LIMIT"
    and "is_cell (prev (cells s Head_brk))
           \<or> status (cells s (prev (cells s Head_brk))) \<noteq> STATUS_FREE"
  shows "(\<forall>m. increase_heap s sz = Died m \<longrightarrow> m = ''sbrk'')
     \<and> (\<forall>p s'. increase_heap s sz = Ok (p, s') \<longrightarrow>
           p \<noteq> 0 \<and> block_at s' p STATUS_ALLOC (SIZE_ALIGN sz) \<and> same_kernel s s')
     \<and> (\<forall>e. increase_heap s sz \<noteq> Fault e)"
proof (cases "status (cells s (prev (cells s Head_brk))) = STATUS_FREE")
  case True
  let ?l = "prev (cells s Head_brk)"
  from True assms(2) have c: "is_cell ?l"
    by simp
  have al: "SIZE_ALIGN (SIZE_ALIGN sz) = SIZE_ALIGN sz"
    by (rule SIZE_ALIGN_idem [OF assms(1)])
  have sk: "same_kernel s (snd (sbrk s inc))" for inc
    by (simp add: sbrk_def same_kernel_def)
  let ?rem = "SIZE_ALIGN sz - size' (cells s ?l)
                - (brk s - (addr_of ?l + META_DATA_SIZE + size' (cells s ?l)))"
  let ?s2 = "snd (sbrk s ?rem)"
  let ?s3 = "delete_meta_cell_brk ?s2 ?l"
  let ?res = "add_meta_cell_brk ?s3 (prev (cells ?s3 ?l)) ?l (SIZE_ALIGN sz) STATUS_ALLOC"
  have ih: "increase_heap s sz =
     (if brk s = - 1 \<or> fst (sbrk s ?rem) = - 1 then Died ''sbrk'' else Ok ?res)"
    using True by (simp add: increase_heap_def Let_def sbrk_def split_beta)
  have "same_kernel s ?s3"
    by (rule same_kernel_trans [OF sk same_kernel_delete(1)])
  then have k: "same_kernel s (snd ?res)"
    by (rule same_kernel_trans) (rule same_kernel_add)
  have b: "block_at (snd ?res) (fst ?res) STATUS_ALLOC (SIZE_ALIGN sz)"
    by (simp add: add_fields block_at_cell [OF c] al)
  have "fst ?res \<noteq> 0"
    using is_cell_addr [OF c] by (simp add: add_fields)
  with k b show ?thesis
    unfolding ih by (auto simp: prod_eq_iff)
next
  case False
  let ?tot = "META_DATA_SIZE + SIZE_ALIGN sz"
  have al: "SIZE_ALIGN (SIZE_ALIGN sz) = SIZE_ALIGN sz"
    by (rule SIZE_ALIGN_idem [OF assms(1)])
  have le: "SIZE_ALIGN sz \<le> BRK_LIMIT"
    by (rule SIZE_ALIGN_below_limit [OF assms(1)])
  then have "unat (SIZE_ALIGN sz) \<le> 131072"
    by (simp add: BRK_LIMIT_def word_le_nat_alt)
  then have u: "unat ?tot = 32 + unat (SIZE_ALIGN sz)"
    using unat_add_lem [of 32 "SIZE_ALIGN sz"] by (simp add: META_DATA_SIZE_32)
  then have t0: "?tot \<noteq> 0"
    by (metis add_is_0 unat_0 zero_neq_numeral)
  have tl: "?tot \<le> BRK_LIMIT + META_DATA_SIZE"
    using u \<open>unat (SIZE_ALIGN sz) \<le> 131072\<close>
    by (simp add: word_le_nat_alt BRK_LIMIT_def META_DATA_SIZE_32)
  obtain a s1 where sb: "sbrk s ?tot = (a, s1)"
    by (cases "sbrk s ?tot")
  show ?thesis
  proof (cases "a = - 1")
    case True
    then show ?thesis
      using False sb by (simp add: increase_heap_def Let_def)
  next
    case na: False
    from sbrk_grow [OF sb na t0 tl] have g: "a = brk s" "s1 = s\<lparr>brk := brk s + ?tot\<rparr>"
      "uint (brk s) + uint ?tot < 2 ^ 64"
      by simp_all
    have "uint ?tot = 32 + uint (SIZE_ALIGN sz)"
      unfolding uint_nat u by simp
    moreover have "0 \<le> uint (SIZE_ALIGN sz)"
      by simp
    ultimately have "uint (brk s) < 2 ^ 64 - 32"
      using g(3) by linarith
    then have nz: "brk s + META_DATA_SIZE \<noteq> 0"
      by (rule plus_32_nonzero)
    then have ic: "is_cell (Cell a)"
      by (simp add: g)
    have ih: "increase_heap s sz
        = Ok (add_meta_cell_brk s1 (prev (cells s Head_brk)) (Cell a) (SIZE_ALIGN sz) STATUS_ALLOC)"
      using False sb na by (simp add: increase_heap_def Let_def)
    have "same_kernel s s1"
      by (simp add: g same_kernel_def)
    then have "same_kernel s
        (snd (add_meta_cell_brk s1 (prev (cells s Head_brk)) (Cell a) (SIZE_ALIGN sz) STATUS_ALLOC))"
      by (rule same_kernel_trans) (rule same_kernel_add)
    then show ?thesis
      unfolding ih using nz block_at_cell [OF ic]
      by (auto simp: add_fields al g prod_eq_iff)
  qed
qed


lemma relinked_same_kernel: "relinked s s' \<Longrightarrow> same_kernel s s'"
  by (simp add: relinked_def)

lemma best_fit_loop_result:
  assumes "heap_list s cs"
  shows "\<exists>b. best_fit_loop s sz (next (cells s Head_brk)) Null = Some b
           \<and> b = foldl (\<lambda>b c. best_fit_step s sz c b) Null cs
           \<and> (b = Null \<or> b \<in> set cs)"
proof -
  from assms have c: "chain (cells s) Head_brk cs" "list_all is_cell cs"
    by (simp_all add: heap_list_def)
  have n: "next (cells s Head_brk) = hd (cs @ [Head_brk])"
    by (rule chain_first [OF c(1)])
  have nn: "Null \<notin> set cs"
    using list_all_cell_not_head [OF c(2)] by simp
  let ?b = "foldl (\<lambda>b c. best_fit_step s sz c b) Null cs"
  have "?b = Null \<or> ?b \<in> set cs"
  proof (cases "\<exists>c\<in>set cs. fits_raw s sz c")
    case True
    with best_fit_fold [OF nn, of s sz] obtain pre post where "cs = pre @ ?b # post"
      by auto
    then have "?b \<in> set cs"
      by (metis in_set_conv_decomp)
    then show ?thesis
      by simp
  next
    case False
    with best_fit_fold [OF nn, of s sz] show ?thesis
      by simp
  qed
  then show ?thesis
    unfolding n best_fit_loop_list [OF c] by simp
qed

lemma heap_path_result:
  assumes "heap_ready s cs" "sz < BRK_LIMIT"
  shows "\<exists>r. heap_path s sz = Some r
     \<and> (\<forall>m. r = Died m \<longrightarrow> m = ''sbrk'')
     \<and> (\<forall>p s'. r = Ok (p, s') \<longrightarrow>
           p \<noteq> 0 \<and> block_at s' p STATUS_ALLOC (SIZE_ALIGN sz) \<and> same_kernel s s')
     \<and> (\<forall>e. r \<noteq> Fault e)"
proof -
  let ?P = "\<lambda>s0 r. (\<forall>m. r = Died m \<longrightarrow> m = ''sbrk'')
     \<and> (\<forall>p s'. r = Ok (p, s') \<longrightarrow>
           p \<noteq> 0 \<and> block_at s' p STATUS_ALLOC (SIZE_ALIGN sz) \<and> same_kernel s0 s')
     \<and> (\<forall>e. r \<noteq> Fault e)"
  let ?rest = "\<lambda>s1. bindR (coalesce_blocks s1)
       (\<lambda>s2. bindR (search_best_fit s2 sz)
       (\<lambda>(return_addr, s3).
          if return_addr = 0 then Some (increase_heap s3 sz)
          else Some (Ok (return_addr, s3))))"
  have rest: "\<exists>r. ?rest s1 = Some r \<and> ?P s1 r"
    if h: "heap_list s1 cs1" and nf: "status (cells s1 Head_brk) \<noteq> STATUS_FREE" for s1 cs1
  proof -
    from coalesce_blocks_list [OF h] obtain r2 where
      r2: "coalesce_blocks s1 = Some r2" "\<forall>m. r2 = Died m \<longrightarrow> m = ''sbrk''"
        "\<forall>s'. r2 = Ok s' \<longrightarrow> (\<exists>cs'. heap_list s' cs') \<and> relinked s1 s'"
        "\<forall>e. r2 \<noteq> Fault e"
      by blast
    show ?thesis
    proof (cases r2)
      case (Died m)
      with r2 show ?thesis
        by (simp add: bindR_simps)
    next
      case (Fault e)
      with r2(4) show ?thesis
        by simp
    next
      case (Ok s2)
      with r2 obtain cs2 where h2: "heap_list s2 cs2" and rl: "relinked s1 s2"
        by auto
      have k2: "same_kernel s1 s2"
        by (rule relinked_same_kernel [OF rl])
      have nf2: "status (cells s2 Head_brk) \<noteq> STATUS_FREE"
        using rl nf by (simp add: relinked_def)
      from best_fit_loop_result [OF h2] obtain b where
        b: "best_fit_loop s2 sz (next (cells s2 Head_brk)) Null = Some b"
          "b = Null \<or> b \<in> set cs2"
        by blast
      have st: "?rest s1 = bindR (search_best_fit s2 sz)
         (\<lambda>(return_addr, s3).
            if return_addr = 0 then Some (increase_heap s3 sz)
            else Some (Ok (return_addr, s3)))"
        by (simp add: r2(1) Ok bindR_simps)
      show ?thesis
      proof (cases "b = Null")
        case True
        have "prev (cells s2 Head_brk) = last (Head_brk # cs2)"
          using h2 chain_last by (simp add: heap_list_def)
        moreover have "cs2 \<noteq> [] \<longrightarrow> is_cell (last cs2)"
          using h2 by (auto simp: heap_list_def list_all_iff)
        ultimately have "is_cell (prev (cells s2 Head_brk))
            \<or> status (cells s2 (prev (cells s2 Head_brk))) \<noteq> STATUS_FREE"
          using nf2 by (cases "cs2 = []") simp_all
        from increase_heap_result [OF assms(2) this]
        have "?P s2 (increase_heap s2 sz)"
          by simp
        then have "?P s1 (increase_heap s2 sz)"
          using k2 by (auto intro: same_kernel_trans)
        moreover have "?rest s1 = Some (increase_heap s2 sz)"
          unfolding st using b(1) True by (simp add: search_best_fit_none bindR_simps)
        ultimately show ?thesis
          by simp
      next
        case False
        then have ic: "is_cell b"
          using b(2) h2 by (auto simp: heap_list_def list_all_iff)
        from search_best_fit_found [OF b(1) ic assms(2)] obtain r3 where
          r3: "search_best_fit s2 sz = Some r3" "\<forall>m. r3 = Died m \<longrightarrow> m = ''sbrk'' \<and> brk s2 = - 1"
            "\<forall>p s'. r3 = Ok (p, s') \<longrightarrow>
               p = addr_of b + META_DATA_SIZE \<and> block_at s' p STATUS_ALLOC (SIZE_ALIGN sz)
               \<and> same_kernel s2 s' \<and> brk s' = brk s2"
            "\<forall>e. r3 \<noteq> Fault e"
          by blast
        show ?thesis
        proof (cases r3)
          case (Died m)
          with r3 st show ?thesis
            by (simp add: bindR_simps)
        next
          case (Fault e)
          with r3(4) show ?thesis
            by simp
        next
          case (Ok ps)
          obtain p s3 where ps: "ps = (p, s3)"
            by (cases ps)
          with r3(3) Ok have p: "p = addr_of b + META_DATA_SIZE"
            "block_at s3 p STATUS_ALLOC (SIZE_ALIGN sz)" "same_kernel s2 s3"
            by blast+
          have "p \<noteq> 0"
            using is_cell_addr [OF ic] p(1) by simp
          moreover have "same_kernel s1 s3"
            by (rule same_kernel_trans [OF k2 p(3)])
          ultimately show ?thesis
            using st r3(1) Ok ps p(2) by (simp add: bindR_simps)
        qed
      qed
    qed
  qed
  show ?thesis
  proof (cases "size' (cells s Head_brk) = 0")
    case True
    show ?thesis
    proof (cases "heap_preallocation s")
      case (Died m)
      then show ?thesis
        using True heap_preallocation_Died [OF Died] by (simp add: heap_path_def bindR_simps)
    next
      case (Fault e)
      then show ?thesis
        by (simp add: heap_preallocation_no_Fault)
    next
      case (Ok s1)
      note pl = heap_preallocation_list [OF Ok]
      from rest [OF pl(1,2)] obtain r where r: "?rest s1 = Some r" "?P s1 r"
        by blast
      have "heap_path s sz = Some r"
        using True Ok r(1) by (simp add: heap_path_def bindR_simps)
      moreover have "?P s r"
        using r(2) pl(3) by (auto intro: same_kernel_trans)
      ultimately show ?thesis
        by blast
    qed
  next
    case False
    with assms(1) have "heap_list s cs" "status (cells s Head_brk) \<noteq> STATUS_FREE"
      by (simp_all add: heap_ready_def)
    from rest [OF this] obtain r where r: "?rest s = Some r" "?P s r"
      by blast
    have "heap_path s sz = Some r"
      using False r(1) by (simp add: heap_path_def bindR_simps)
    with r(2) show ?thesis
      by blast
  qed
qed

section \<open>Auxiliary facts for the claims\<close>

lemma add_meta_cell_mmap_result:
  "(\<forall>m. add_meta_cell_mmap s sz = Died m \<longrightarrow> m = ''mmap'')
   \<and> (\<forall>p s'. add_meta_cell_mmap s sz = Ok (p, s') \<longrightarrow>
         block_at s' p STATUS_MAPPED (SIZE_ALIGN sz)
         \<and> mmap_calls s' = Suc (mmap_calls s) \<and> brk s' = brk s \<and> bytes s' = bytes s
         \<and> trace s' = trace s @ [Mmap (p - META_DATA_SIZE) (META_DATA_SIZE + SIZE_ALIGN sz)]
         \<and> maps s' = maps s @ [(p - META_DATA_SIZE, META_DATA_SIZE + SIZE_ALIGN sz)]
         \<and> heap_base s' = heap_base s)
   \<and> (\<forall>e. add_meta_cell_mmap s sz \<noteq> Fault e)"
  by (auto simp: add_meta_cell_mmap_def Let_def mmap_def init_list_mmap_def block_at_def
        set_next_def set_prev_def set_status_def set_size_def split: if_splits)

lemma os_malloc_alt:
  "os_malloc s sz =
     (if sz = 0 then Some (Ok (0, s))
      else if BRK_LIMIT \<le> sz then Some (add_meta_cell_mmap s sz)
      else heap_path s sz)"
  by (simp add: os_malloc_def heap_path_def)

lemma fits_raw_iff:
  assumes "aligned_free s c" "sz < BRK_LIMIT"
  shows "fits_raw s sz c \<longleftrightarrow> fits s sz c"
proof -
  have "unat sz < 131072"
    using assms(2) by (simp add: BRK_LIMIT_def word_less_nat_alt)
  then have "unat sz \<le> 2 ^ 64 - 8"
    by simp
  then show ?thesis
    using assms(1) by (auto simp: fits_raw_def fits_def aligned_free_def le_SIZE_ALIGN_iff)
qed

lemma is_best_fit_decomp:
  assumes "cs = pre @ b # post" "distinct cs" "fits s sz b"
    and "\<forall>c\<in>set pre. fits s sz c \<longrightarrow> size' (cells s b) < size' (cells s c)"
    and "\<forall>c\<in>set post. fits s sz c \<longrightarrow> size' (cells s b) \<le> size' (cells s c)"
  shows "is_best_fit s sz cs b"
proof -
  have "b \<notin> set pre"
    using assms(1,2) by auto
  then have "takeWhile (\<lambda>c. c \<noteq> b) (pre @ b # post) = pre"
    by (induction pre) auto
  moreover have "\<forall>c\<in>set (pre @ b # post). fits s sz c \<longrightarrow> size' (cells s b) \<le> size' (cells s c)"
    using assms(4,5) by (auto intro: less_imp_le)
  ultimately show ?thesis
    unfolding is_best_fit_def assms(1) using assms(3,4) by (simp add: list_all_iff)
qed

lemma os_calloc_alt:
  "os_calloc s nmemb sz =
     (if nmemb * sz = 0 then Some (Ok (0, s))
      else bindR (if min (pagesize s) 4080 \<le> nmemb * sz
                  then Some (add_meta_cell_mmap s (nmemb * sz))
                  else heap_path s (nmemb * sz))
             (\<lambda>(return_addr, s4).
                bindR (Some (memset s4 return_addr 0 (SIZE_ALIGN (nmemb * sz))))
                  (\<lambda>s5. Some (Ok (return_addr, s5)))))"
proof -
  have "(if 4080 < pagesize s then 4080 else pagesize s) = min (pagesize s) 4080"
    by (auto simp: min_def)
  then show ?thesis
    unfolding os_calloc_def heap_path_def Let_def by simp
qed

lemma memset_result:
  "memset s p c n = (if accessible s p n
     then Ok (s\<lparr>bytes := (\<lambda>a. if a - p < n then c else bytes s a),
               trace := trace s @ [Memset p n]\<rparr>)
     else Fault (Memset p n))"
  by (simp add: memset_def)

lemma ret_addr_Some:
  "ret_addr r = Some p \<Longrightarrow> \<exists>s'. r = Some (Ok (p, s')) \<and> state_of r = s'"
  by (auto simp: ret_addr_def state_of_def split: option.splits result.splits)

lemma heap_path_alt:
  "heap_path s sz =
     bindR (search_state s)
       (\<lambda>s2. bindR (search_best_fit s2 sz)
       (\<lambda>(return_addr, s3).
          if return_addr = 0 then Some (increase_heap s3 sz)
          else Some (Ok (return_addr, s3))))"
  by (simp add: heap_path_def search_state_def bindR_def split: result.splits)

lemma searched_Some:
  "(case search_state s of Some (Ok s2) \<Rightarrow> True | _ \<Rightarrow> False)
     \<Longrightarrow> search_state s = Some (Ok (searched s))"
  by (auto simp: searched_def split: option.splits result.splits)

section \<open>The layout of the heap, and accesses within bounds\<close>

lemma start_of_append: "start_of e (xs @ ys) = start_of (start_of e ys) xs"
  by (cases xs) simp_all

lemma laid_out_append:
  "laid_out h e (xs @ ys) \<longleftrightarrow> laid_out h (start_of e ys) xs \<and> laid_out h e ys"
  by (induction xs) (auto simp: start_of_append)

lemma start_of_le: "laid_out h e cs \<Longrightarrow> start_of e cs \<le> e"
  by (induction cs) auto

lemma start_of_mono: "e \<le> e' \<Longrightarrow> start_of e cs \<le> start_of e' cs"
  by (cases cs) simp_all

lemma laid_out_mono: "laid_out h e cs \<Longrightarrow> e \<le> e' \<Longrightarrow> laid_out h e' cs"
proof (induction cs)
  case Nil
  then show ?case by simp
next
  case (Cons c cs)
  then show ?case
    using start_of_mono [of e e' cs] by auto
qed

lemma laid_out_cong:
  "\<forall>c\<in>set cs. size' (h' c) = size' (h c) \<Longrightarrow> laid_out h' e cs = laid_out h e cs"
  by (induction cs) auto

lemma start_of_drop: "laid_out h e (fs @ rest) \<Longrightarrow> start_of e (fs @ rest) \<le> start_of e rest"
  unfolding laid_out_append start_of_append by (auto dest: start_of_le)

lemma laid_out_drop:
  assumes "laid_out h e (xs @ fs @ rest)"
  shows "laid_out h e (xs @ rest)"
proof -
  from assms have 1: "laid_out h (start_of e (fs @ rest)) xs" and 2: "laid_out h e (fs @ rest)"
    unfolding laid_out_append [of h e xs] by simp_all
  from 2 have 3: "laid_out h e rest"
    unfolding laid_out_append by simp
  from laid_out_mono [OF 1 start_of_drop [OF 2]] 3 show ?thesis
    unfolding laid_out_append by simp
qed

lemma laid_out_aligned: "laid_out h e cs \<Longrightarrow> 8 dvd e \<Longrightarrow> 8 dvd start_of e cs"
  by (cases cs) simp_all

lemma laid_out_member:
  assumes "laid_out h e cs" "b \<in> set cs"
  shows "start_of e cs \<le> unat (addr_of b)"
    "unat (addr_of b) + unat META_DATA_SIZE + unat (size' (h b)) \<le> e"
    "8 dvd unat (addr_of b)"
proof -
  from assms(2) obtain pre post where d: "cs = pre @ b # post"
    by (auto simp: in_set_conv_decomp)
  from assms(1) have 1: "laid_out h (unat (addr_of b)) pre" and 2: "laid_out h e (b # post)"
    unfolding d laid_out_append by simp_all
  from start_of_le [OF 1] show "start_of e cs \<le> unat (addr_of b)"
    unfolding d start_of_append by simp
  from 2 have "laid_out h e post"
    by simp
  from start_of_le [OF this] 2
  show "unat (addr_of b) + unat META_DATA_SIZE + unat (size' (h b)) \<le> e"
    by simp
  from 2 show "8 dvd unat (addr_of b)"
    by simp
qed

lemma coalesced_cong:
  "\<forall>c\<in>set cs. size' (h' c) = size' (h c) \<and> status (h' c) = status (h c)
     \<Longrightarrow> coalesced h' e cs = coalesced h e cs"
  by (induction cs) auto

lemma coalesced_aligned:
  "coalesced h e cs \<Longrightarrow> laid_out h e cs \<Longrightarrow> 8 dvd e
     \<Longrightarrow> \<forall>c\<in>set cs. status (h c) = STATUS_FREE \<longrightarrow> 8 dvd unat (size' (h c))"
proof (induction cs)
  case Nil
  then show ?case by simp
next
  case (Cons c cs)
  have lo: "laid_out h e cs"
    using Cons.prems(2) by simp
  have a: "8 dvd start_of e cs"
    by (rule laid_out_aligned [OF lo Cons.prems(3)])
  have "8 dvd unat (size' (h c))" if "status (h c) = STATUS_FREE"
  proof -
    from that Cons.prems(1)
    have "unat (addr_of c) + unat META_DATA_SIZE + unat (size' (h c)) = start_of e cs"
      by simp
    with a have "8 dvd unat (addr_of c) + 32 + unat (size' (h c))"
      by (simp add: META_DATA_SIZE_32)
    moreover have "8 dvd unat (addr_of c) + 32"
      using Cons.prems(2) by simp
    ultimately show ?thesis
      using dvd_add_right_iff by blast
  qed
  with Cons.IH Cons.prems lo show ?case
    by simp
qed

lemma unat_stop_size:
  fixes stop a :: "64 word"
  assumes "unat a + 32 \<le> unat stop"
  shows "unat (stop - a - 32) = unat stop - unat a - 32"
proof -
  have 1: "a \<le> stop"
    using assms by (simp add: word_le_nat_alt)
  then have 2: "unat (stop - a) = unat stop - unat a"
    by (rule unat_sub)
  then have "32 \<le> stop - a"
    using assms by (simp add: word_le_nat_alt)
  then have "unat (stop - a - 32) = unat (stop - a) - unat (32 :: 64 word)"
    by (rule unat_sub)
  with 2 show ?thesis
    by simp
qed

lemma coalesce_block_layout:
  assumes h: "heap_list s (xs @ c # ys)"
    and lo: "laid_out (cells s) (unat (brk s)) (xs @ c # ys)"
    and ok: "coalesce_block s c = Some (Ok s')"
  shows "laid_out (cells s') (unat (brk s))
           (xs @ c # dropWhile (\<lambda>q. status (cells s q) = STATUS_FREE) ys)"
    "unat (addr_of c) + unat META_DATA_SIZE + unat (size' (cells s' c))
       = start_of (unat (brk s)) (dropWhile (\<lambda>q. status (cells s q) = STATUS_FREE) ys)"
    "\<forall>q. q \<noteq> c \<longrightarrow> size' (cells s' q) = size' (cells s q)"
proof -
  let ?e = "unat (brk s)"
  define rest where "rest = dropWhile (\<lambda>q. status (cells s q) = STATUS_FREE) ys"
  define fs where "fs = takeWhile (\<lambda>q. status (cells s q) = STATUS_FREE) ys"
  define stop where "stop = (case rest of [] \<Rightarrow> brk s | d # ds \<Rightarrow> addr_of d)"
  have ys: "ys = fs @ rest"
    unfolding fs_def rest_def by simp
  from coalesce_block_list [OF h] ok
  have sz: "size' (cells s' c) = stop - addr_of c - META_DATA_SIZE"
    and others: "\<forall>q. q \<noteq> c \<longrightarrow> size' (cells s' q) = size' (cells s q)"
    unfolding stop_def rest_def by auto
  have us: "unat stop = start_of ?e rest"
    unfolding stop_def by (cases rest) simp_all
  have "laid_out (cells s) ?e ((xs @ [c]) @ fs @ rest)"
    using lo unfolding ys by simp
  then have "laid_out (cells s) ?e ((xs @ [c]) @ rest)"
    by (rule laid_out_drop)
  then have l: "laid_out (cells s) (unat (addr_of c)) xs" "8 dvd unat (addr_of c)"
    "unat (addr_of c) + unat META_DATA_SIZE + unat (size' (cells s c)) \<le> start_of ?e rest"
    "laid_out (cells s) ?e rest"
    by (simp_all add: laid_out_append)
  have "unat (addr_of c) + 32 \<le> unat stop"
    using l(3) unfolding us by (simp add: META_DATA_SIZE_32)
  then have u: "unat (size' (cells s' c)) = unat stop - unat (addr_of c) - 32"
    unfolding sz META_DATA_SIZE_32 by (rule unat_stop_size)
  with \<open>unat (addr_of c) + 32 \<le> unat stop\<close>
  show ex: "unat (addr_of c) + unat META_DATA_SIZE + unat (size' (cells s' c))
       = start_of ?e (dropWhile (\<lambda>q. status (cells s q) = STATUS_FREE) ys)"
    unfolding rest_def [symmetric] us [symmetric] by (simp add: META_DATA_SIZE_32)
  have d: "c \<notin> set xs" "c \<notin> set rest"
    using h unfolding ys heap_list_def by auto
  have "laid_out (cells s') (unat (addr_of c)) xs"
    using l(1) d(1) others by (subst laid_out_cong [of _ _ "cells s"]) auto
  moreover have "laid_out (cells s') ?e rest"
    using l(4) d(2) others by (subst laid_out_cong [of _ _ "cells s"]) auto
  ultimately show "laid_out (cells s') ?e
      (xs @ c # dropWhile (\<lambda>q. status (cells s q) = STATUS_FREE) ys)"
    using l(2) ex unfolding rest_def [symmetric] by (simp add: laid_out_append)
  show "\<forall>q. q \<noteq> c \<longrightarrow> size' (cells s' q) = size' (cells s q)"
    by (rule others)
qed

lemma coalesce_blocks_loop_layout:
  assumes "heap_list s (xs @ ys)" "laid_out (cells s) (unat (brk s)) (xs @ ys)"
    and "coalesce_blocks_loop s (hd (ys @ [Head_brk])) = Some (Ok s')"
  shows "\<exists>ys'. heap_list s' (xs @ ys') \<and> laid_out (cells s') (unat (brk s)) (xs @ ys')
           \<and> coalesced (cells s') (unat (brk s)) ys'
           \<and> start_of (unat (brk s)) ys' = start_of (unat (brk s)) ys
           \<and> (\<forall>q\<in>set xs. size' (cells s' q) = size' (cells s q))
           \<and> relinked s s'"
  using assms
proof (induction "length ys" arbitrary: s xs ys rule: less_induct)
  case less
  let ?e = "unat (brk s)"
  show ?case
  proof (cases ys)
    case Nil
    have "coalesce_blocks_loop s Head_brk = Some (Ok s)"
      by (subst coalesce_blocks_loop.simps) simp
    with Nil less.prems have "s' = s"
      by simp
    with Nil less.prems(1,2) show ?thesis
      by (intro exI [of _ "[]"]) (simp add: relinked_refl)
  next
    case (Cons c ys')
    have hl: "heap_list s (xs @ c # ys')"
      using less.prems Cons by simp
    have lo: "laid_out (cells s) ?e (xs @ c # ys')"
      using less.prems Cons by simp
    note m = heap_list_mid [OF hl]
    have cx: "c \<notin> set xs"
      using hl by (auto simp: heap_list_def)
    show ?thesis
    proof (cases "status (cells s c) = STATUS_FREE")
      case True
      let ?rest = "dropWhile (\<lambda>q. status (cells s q) = STATUS_FREE) ys'"
      from coalesce_block_list [OF hl] obtain r where
        r: "coalesce_block s c = Some r"
          "\<forall>s'. r = Ok s' \<longrightarrow> heap_list s' (xs @ c # ?rest) \<and> relinked s s'"
        by blast
      have lp: "coalesce_blocks_loop s c =
          (case r of Died msg \<Rightarrow> Some (Died msg) | Fault e \<Rightarrow> Some (Fault e)
           | Ok s1 \<Rightarrow> coalesce_blocks_loop s1 (next (cells s1 c)))"
        using True m(2) r(1) by (subst coalesce_blocks_loop.simps) (simp split: result.splits)
      from less.prems(3) Cons have res: "coalesce_blocks_loop s c = Some (Ok s')"
        by simp
      then obtain s1 where s1: "r = Ok s1"
        unfolding lp by (cases r) simp_all
      with r have cb: "coalesce_block s c = Some (Ok s1)"
        and h1: "heap_list s1 ((xs @ [c]) @ ?rest)" and rl: "relinked s s1"
        by simp_all
      note cl = coalesce_block_layout [OF hl lo cb]
      have b1: "brk s1 = brk s"
        using rl by (simp add: relinked_def)
      have "next (cells s1 c) = hd (?rest @ [Head_brk])"
        using heap_list_mid(1) [of s1 xs c ?rest] h1 by simp
      then have u: "coalesce_blocks_loop s1 (hd (?rest @ [Head_brk])) = Some (Ok s')"
        using res unfolding lp s1 by simp
      have lt: "length ?rest < length ys"
        using Cons length_dropWhile_le [of _ ys'] by (simp add: le_imp_less_Suc)
      have lo1: "laid_out (cells s1) (unat (brk s1)) ((xs @ [c]) @ ?rest)"
        using cl(1) unfolding b1 by simp
      from less.hyps [OF lt h1 lo1 u] obtain ys2 where
        y: "heap_list s' ((xs @ [c]) @ ys2)" "laid_out (cells s') ?e ((xs @ [c]) @ ys2)"
          "coalesced (cells s') ?e ys2" "start_of ?e ys2 = start_of ?e ?rest"
          "\<forall>q\<in>set (xs @ [c]). size' (cells s' q) = size' (cells s1 q)"
          "relinked s1 s'"
        unfolding b1 by blast
      have "unat (addr_of c) + unat META_DATA_SIZE + unat (size' (cells s' c)) = start_of ?e ys2"
        using y(4,5) cl(2) by simp
      then have "coalesced (cells s') ?e (c # ys2)"
        using y(3) by simp
      moreover have "\<forall>q\<in>set xs. size' (cells s' q) = size' (cells s q)"
        using y(5) cl(3) cx by auto
      moreover have "relinked s s'"
        by (rule relinked_trans [OF rl y(6)])
      ultimately show ?thesis
        using y(1,2) Cons by (intro exI [of _ "c # ys2"]) simp
    next
      case False
      have u: "coalesce_blocks_loop s c = coalesce_blocks_loop s (hd (ys' @ [Head_brk]))"
        using False m(1,2) by (subst coalesce_blocks_loop.simps) simp
      with less.prems(3) Cons
      have res: "coalesce_blocks_loop s (hd (ys' @ [Head_brk])) = Some (Ok s')"
        by simp
      have h1: "heap_list s ((xs @ [c]) @ ys')" and lo1: "laid_out (cells s) ?e ((xs @ [c]) @ ys')"
        using hl lo by simp_all
      have lt: "length ys' < length ys"
        using Cons by simp
      from less.hyps [OF lt h1 lo1 res] obtain ys2 where
        y: "heap_list s' ((xs @ [c]) @ ys2)" "laid_out (cells s') ?e ((xs @ [c]) @ ys2)"
          "coalesced (cells s') ?e ys2"
          "\<forall>q\<in>set (xs @ [c]). size' (cells s' q) = size' (cells s q)"
          "relinked s s'"
        by blast
      have "status (cells s' c) \<noteq> STATUS_FREE"
        using False y(5) by (simp add: relinked_def)
      then have "coalesced (cells s') ?e (c # ys2)"
        using y(3) by simp
      then show ?thesis
        using y(1,2,4,5) Cons by (intro exI [of _ "c # ys2"]) simp
    qed
  qed
qed

lemma coalesce_blocks_layout:
  assumes "heap_list s cs" "laid_out (cells s) (unat (brk s)) cs"
    and "coalesce_blocks s = Some (Ok s')"
  shows "\<exists>cs'. heap_list s' cs' \<and> laid_out (cells s') (unat (brk s')) cs'
           \<and> coalesced (cells s') (unat (brk s')) cs'
           \<and> start_of (unat (brk s')) cs' = start_of (unat (brk s)) cs
           \<and> relinked s s'"
proof -
  have "next (cells s Head_brk) = hd (cs @ [Head_brk])"
    using assms(1) chain_first by (simp add: heap_list_def)
  with assms(3) have "coalesce_blocks_loop s (hd (cs @ [Head_brk])) = Some (Ok s')"
    by (simp add: coalesce_blocks_def)
  from coalesce_blocks_loop_layout [of s "[]" cs, OF _ _ this] assms(1,2)
  obtain cs' where c: "heap_list s' cs'" "laid_out (cells s') (unat (brk s)) cs'"
    "coalesced (cells s') (unat (brk s)) cs'"
    "start_of (unat (brk s)) cs' = start_of (unat (brk s)) cs" "relinked s s'"
    by auto
  have "brk s' = brk s"
    using c(5) by (simp add: relinked_def)
  with c show ?thesis
    by auto
qed

lemma coalesced_last:
  "coalesced h e cs \<Longrightarrow> cs \<noteq> [] \<Longrightarrow> status (h (last cs)) = STATUS_FREE
     \<Longrightarrow> unat (addr_of (last cs)) + unat META_DATA_SIZE + unat (size' (h (last cs))) = e"
  by (induction cs) (auto split: if_splits)

lemma le_SIZE_ALIGN: "sz < BRK_LIMIT \<Longrightarrow> unat sz \<le> unat (SIZE_ALIGN sz)"
proof -
  assume "sz < BRK_LIMIT"
  then have b: "unat sz < 131072"
    by (simp add: BRK_LIMIT_def word_less_nat_alt)
  then have "unat (SIZE_ALIGN sz) = (unat sz + 7) div 8 * 8"
    by (intro unat_SIZE_ALIGN) simp
  moreover have "unat sz \<le> (unat sz + 7) div 8 * 8"
  proof -
    have "unat sz + 7 < (unat sz + 7) div 8 * 8 + 8"
      using div_mult_mod_eq [of "unat sz + 7" 8] mod_less_divisor [of 8 "unat sz + 7"]
      by linarith
    then show ?thesis
      by simp
  qed
  ultimately show ?thesis
    by simp
qed

lemma unat_SIZE_ALIGN_limit: "sz < BRK_LIMIT \<Longrightarrow> unat (SIZE_ALIGN sz) \<le> 131072"
  using SIZE_ALIGN_below_limit [of sz] by (simp add: BRK_LIMIT_def word_le_nat_alt)

lemma unat_plus_no_wrap:
  fixes a b :: "64 word"
  shows "unat a + unat b < 2 ^ 64 \<Longrightarrow> unat (a + b) = unat a + unat b"
  using unat_add_lem [of a b] by simp

lemma increase_heap_free_last:
  assumes "status (cells s (prev (cells s Head_brk))) = STATUS_FREE"
  shows "increase_heap s sz =
     (if brk s = - 1
         \<or> fst (sbrk s (SIZE_ALIGN sz - size' (cells s (prev (cells s Head_brk)))
                  - (brk s - (addr_of (prev (cells s Head_brk)) + META_DATA_SIZE
                                + size' (cells s (prev (cells s Head_brk))))))) = - 1
      then Died ''sbrk''
      else Ok (add_meta_cell_brk
                 (delete_meta_cell_brk
                    (snd (sbrk s (SIZE_ALIGN sz - size' (cells s (prev (cells s Head_brk)))
                       - (brk s - (addr_of (prev (cells s Head_brk)) + META_DATA_SIZE
                                     + size' (cells s (prev (cells s Head_brk))))))))
                    (prev (cells s Head_brk)))
                 (prev (cells (delete_meta_cell_brk
                    (snd (sbrk s (SIZE_ALIGN sz - size' (cells s (prev (cells s Head_brk)))
                       - (brk s - (addr_of (prev (cells s Head_brk)) + META_DATA_SIZE
                                     + size' (cells s (prev (cells s Head_brk))))))))
                    (prev (cells s Head_brk))) (prev (cells s Head_brk))))
                 (prev (cells s Head_brk)) (SIZE_ALIGN sz) STATUS_ALLOC))"
  using assms by (simp add: increase_heap_def Let_def sbrk_def split_beta)

lemma sbrk_room:
  assumes "inc \<noteq> 0" "inc \<le> BRK_LIMIT + META_DATA_SIZE"
    and "uint (brk s) + 131104 \<le> uint (brk_max s)"
  shows "fst (sbrk s inc) \<noteq> - 1"
proof -
  have i: "uint inc \<le> 131104"
    using assms(2) by (simp add: word_le_def BRK_LIMIT_def META_DATA_SIZE_32)
  then have "uint inc < 2 ^ (LENGTH(64) - Suc 0)"
    by simp
  then have si: "sint inc = uint inc"
    by (rule sint_eq_uint_small)
  have "uint (brk_max s) < 2 ^ 64"
    using uint_lt2p [of "brk_max s"] by simp
  then have u: "uint (brk s) < 2 ^ 64 - 1"
    using assms(3) by simp
  have "brk s \<noteq> - 1"
  proof
    assume "brk s = - 1"
    then have "uint (brk s) = 2 ^ 64 - 1"
      by (simp add: unsigned_minus_1_eq_mask mask_eq_exp_minus_1)
    with u show False
      by simp
  qed
  moreover have "\<not> uint (brk s) + uint inc < 0"
    by (simp add: not_less)
  moreover have "\<not> uint (brk_max s) < uint (brk s) + uint inc"
    using assms(3) i by simp
  ultimately show ?thesis
    using assms(1) by (simp add: sbrk_def si)
qed

lemma increase_heap_bounds:
  assumes lim: "sz < BRK_LIMIT"
    and h: "heap_list s cs"
    and lo: "laid_out (cells s) (unat (brk s)) cs"
    and co: "coalesced (cells s) (unat (brk s)) cs"
    and nf: "status (cells s Head_brk) \<noteq> STATUS_FREE"
    and nofit: "\<forall>c\<in>set cs. \<not> fits_raw s sz c"
    and hb: "unat (heap_base s) \<le> start_of (unat (brk s)) cs"
  shows "(\<forall>p s'. increase_heap s sz = Ok (p, s') \<longrightarrow>
            heap_base s' \<le> p \<and> unat p + unat (SIZE_ALIGN sz) \<le> unat (brk s'))
     \<and> (uint (brk s) + 131104 \<le> uint (brk_max s) \<longrightarrow> (\<forall>m. increase_heap s sz \<noteq> Died m))"
proof (cases "status (cells s (prev (cells s Head_brk))) = STATUS_FREE")
  case True
  let ?l = "prev (cells s Head_brk)"
  let ?e = "unat (brk s)"
  have pl: "?l = last (Head_brk # cs)"
    using h chain_last by (simp add: heap_list_def)
  with True nf have ne: "cs \<noteq> []"
    by auto
  with pl have ll: "?l = last cs"
    by simp
  then have mem: "?l \<in> set cs"
    using ne by simp
  from coalesced_last [OF co ne] True ll
  have ex: "unat (addr_of ?l) + 32 + unat (size' (cells s ?l)) = ?e"
    by (simp add: META_DATA_SIZE_32)
  have e64: "?e < 2 ^ 64"
    using unsigned_less [of "brk s", where 'a = nat] by simp
  have u1: "unat (addr_of ?l + 32) = unat (addr_of ?l) + 32"
    using ex e64 unat_add_lem [of "addr_of ?l" 32] by simp
  have u2: "unat (addr_of ?l + 32 + size' (cells s ?l)) = ?e"
    using ex e64 u1 unat_add_lem [of "addr_of ?l + 32" "size' (cells s ?l)"] by simp
  then have la: "addr_of ?l + META_DATA_SIZE + size' (cells s ?l) = brk s"
    unfolding META_DATA_SIZE_32 by (rule word_unat_eq_iff [THEN iffD2])
  have "\<not> fits_raw s sz ?l"
    using nofit mem by blast
  then have lt: "unat (size' (cells s ?l)) < unat sz"
    using True by (simp add: fits_raw_def word_le_nat_alt)
  note sa = le_SIZE_ALIGN [OF lim] unat_SIZE_ALIGN_limit [OF lim]
  define rem where "rem = SIZE_ALIGN sz - size' (cells s ?l)"
  have "size' (cells s ?l) \<le> SIZE_ALIGN sz"
    using lt sa(1) by (simp add: word_le_nat_alt)
  then have ur: "unat rem = unat (SIZE_ALIGN sz) - unat (size' (cells s ?l))"
    unfolding rem_def by (rule unat_sub)
  have r0: "rem \<noteq> 0"
    using ur lt sa(1) by (metis diff_is_0_eq not_less order_trans unat_0 less_imp_le)
  have rl: "rem \<le> BRK_LIMIT + META_DATA_SIZE"
    using ur sa(2) by (simp add: word_le_nat_alt BRK_LIMIT_def META_DATA_SIZE_32)
  have req: "SIZE_ALIGN sz - size' (cells s ?l)
               - (brk s - (addr_of ?l + META_DATA_SIZE + size' (cells s ?l))) = rem"
    unfolding la rem_def by simp
  note ih = increase_heap_free_last [OF True, of sz, unfolded req]
  have nd: "increase_heap s sz \<noteq> Died m" if "uint (brk s) + 131104 \<le> uint (brk_max s)" for m
  proof -
    have "fst (sbrk s rem) \<noteq> - 1"
      by (rule sbrk_room [OF r0 rl that])
    moreover have "brk s \<noteq> - 1"
      using sbrk_room [OF r0 rl that] r0 by (auto simp: sbrk_def split: if_splits)
    ultimately show ?thesis
      unfolding ih by simp
  qed
  have "heap_base s' \<le> p \<and> unat p + unat (SIZE_ALIGN sz) \<le> unat (brk s')"
    if ok: "increase_heap s sz = Ok (p, s')" for p s'
  proof -
  obtain a s1 where sb: "sbrk s rem = (a, s1)"
    by (cases "sbrk s rem")
  from ok have na: "a \<noteq> - 1"
    unfolding ih sb by (auto split: if_splits)
  from sbrk_grow [OF sb na r0 rl] have g: "s1 = s\<lparr>brk := brk s + rem\<rparr>"
    "uint (brk s) + uint rem < 2 ^ 64"
    by simp_all
  have nw: "unat (brk s) + unat rem < 2 ^ 64"
    using g(2) unfolding uint_nat by (metis of_nat_add of_nat_less_iff of_nat_numeral of_nat_power)
  have ub: "unat (brk s + rem) = ?e + unat rem"
    by (rule unat_plus_no_wrap [OF nw])
  from ok have res: "p = addr_of ?l + META_DATA_SIZE" "brk s' = brk s + rem"
    "heap_base s' = heap_base s"
    unfolding ih sb using na same_kernel_add [of "delete_meta_cell_brk s1 ?l"]
      same_kernel_delete [of s1 ?l]
    by (auto simp: prod_eq_iff add_fields g same_kernel_def split: if_splits)
  have up: "unat p = unat (addr_of ?l) + 32"
    unfolding res(1) META_DATA_SIZE_32 by (rule u1)
  have "unat p + unat (SIZE_ALIGN sz) = ?e + unat rem"
    using up ex ur lt sa(1) by simp
  then have 1: "unat p + unat (SIZE_ALIGN sz) \<le> unat (brk s')"
    unfolding res(2) ub by simp
  have "unat (heap_base s) \<le> unat (addr_of ?l)"
    using hb laid_out_member(1) [OF lo mem] by simp
  then have "heap_base s' \<le> p"
    unfolding res(3) using up by (simp add: word_le_nat_alt)
  with 1 show ?thesis
    by simp
  qed
  with nd show ?thesis
    by blast
next
  case False
  let ?tot = "META_DATA_SIZE + SIZE_ALIGN sz"
  note sa = unat_SIZE_ALIGN_limit [OF lim]
  have u: "unat ?tot = 32 + unat (SIZE_ALIGN sz)"
    using sa unat_add_lem [of 32 "SIZE_ALIGN sz"] by (simp add: META_DATA_SIZE_32)
  then have t0: "?tot \<noteq> 0"
    by (metis add_is_0 unat_0 zero_neq_numeral)
  have tl: "?tot \<le> BRK_LIMIT + META_DATA_SIZE"
    using u sa by (simp add: word_le_nat_alt BRK_LIMIT_def META_DATA_SIZE_32)
  have nd: "increase_heap s sz \<noteq> Died m" if "uint (brk s) + 131104 \<le> uint (brk_max s)" for m
    using sbrk_room [OF t0 tl that] False
    by (auto simp: increase_heap_def Let_def split: prod.splits)
  have "heap_base s' \<le> p \<and> unat p + unat (SIZE_ALIGN sz) \<le> unat (brk s')"
    if ok: "increase_heap s sz = Ok (p, s')" for p s'
  proof -
  obtain a s1 where sb: "sbrk s ?tot = (a, s1)"
    by (cases "sbrk s ?tot")
  from ok have na: "a \<noteq> - 1"
    using False sb by (auto simp: increase_heap_def Let_def split: if_splits)
  from sbrk_grow [OF sb na t0 tl] have g: "a = brk s" "s1 = s\<lparr>brk := brk s + ?tot\<rparr>"
    "uint (brk s) + uint ?tot < 2 ^ 64"
    by simp_all
  have nw: "unat (brk s) + unat ?tot < 2 ^ 64"
    using g(3) unfolding uint_nat by (metis of_nat_add of_nat_less_iff of_nat_numeral of_nat_power)
  have ub: "unat (brk s + ?tot) = unat (brk s) + unat ?tot"
    by (rule unat_plus_no_wrap [OF nw])
  from ok have res: "p = brk s + META_DATA_SIZE" "brk s' = brk s + ?tot"
    "heap_base s' = heap_base s"
    using False sb na same_kernel_add [of s1]
    by (auto simp: increase_heap_def Let_def prod_eq_iff add_fields g same_kernel_def)
  have up: "unat p = unat (brk s) + 32"
    unfolding res(1) META_DATA_SIZE_32 using nw u unat_add_lem [of "brk s" 32] by simp
  have 1: "unat p + unat (SIZE_ALIGN sz) \<le> unat (brk s')"
    unfolding res(2) ub up u by simp
  have "unat (heap_base s) \<le> unat (brk s)"
    using hb start_of_le [OF lo] by simp
  then have "heap_base s' \<le> p"
    unfolding res(3) using up by (simp add: word_le_nat_alt)
  with 1 show ?thesis
    by simp
  qed
  with nd show ?thesis
    by blast
qed

lemma heap_preallocation_layout:
  assumes "heap_preallocation s = Ok s'" "8 dvd unat (brk s)"
  shows "laid_out (cells s') (unat (brk s')) [Cell (brk s)]" "8 dvd unat (brk s')"
    "unat (brk s') = unat (brk s) + 131072"
proof -
  obtain a s2 where sb: "sbrk (init_list_brk s) BRK_LIMIT = (a, s2)"
    by (cases "sbrk (init_list_brk s) BRK_LIMIT")
  with assms(1) have a: "a \<noteq> - 1"
    and s': "s' = snd (add_meta_cell_brk s2 Head_brk (Cell a) (BRK_LIMIT - META_DATA_SIZE) STATUS_FREE)"
    by (auto simp: heap_preallocation_def Let_def split: if_splits)
  have "BRK_LIMIT \<noteq> 0" "BRK_LIMIT \<le> BRK_LIMIT + META_DATA_SIZE"
    by (simp_all add: BRK_LIMIT_def META_DATA_SIZE_32)
  from sbrk_grow [OF sb a this] have g: "a = brk s" "s2 = (init_list_brk s)\<lparr>brk := brk s + BRK_LIMIT\<rparr>"
    "uint (brk s) + uint BRK_LIMIT < 2 ^ 64"
    by (simp_all add: init_list_brk_def set_next_def set_prev_def set_status_def set_size_def Let_def)
  have "uint (brk s) + 131072 < 2 ^ 64"
    using g(3) by (simp add: BRK_LIMIT_def)
  then have "unat (brk s) + 131072 < 2 ^ 64"
    unfolding uint_nat by (metis of_nat_add of_nat_less_iff of_nat_numeral of_nat_power)
  then have "unat (brk s) + unat BRK_LIMIT < 2 ^ 64"
    by (simp add: BRK_LIMIT_def)
  then have "unat (brk s + BRK_LIMIT) = unat (brk s) + unat BRK_LIMIT"
    by (rule unat_plus_no_wrap)
  then have ub: "unat (brk s + BRK_LIMIT) = unat (brk s) + 131072"
    by (simp add: BRK_LIMIT_def)
  have b: "brk s' = brk s + BRK_LIMIT"
    unfolding s' g by (simp add: same_kernel_add)
  have sz: "size' (cells s' (Cell (brk s))) = 131040"
    unfolding s' g by (simp add: add_fields) (simp add: prims)
  show "laid_out (cells s') (unat (brk s')) [Cell (brk s)]"
    using assms(2) unfolding b ub by (simp add: sz META_DATA_SIZE_32)
  show "8 dvd unat (brk s')"
    using assms(2) unfolding b ub by simp
  show "unat (brk s') = unat (brk s) + 131072"
    unfolding b ub by simp
qed

lemma room_brk:
  assumes "uint (brk s) + 131104 \<le> uint (brk_max s)"
  shows "brk s \<noteq> - 1"
proof
  assume "brk s = - 1"
  then have "uint (brk s) = 2 ^ 64 - 1"
    by (simp add: unsigned_minus_1_eq_mask mask_eq_exp_minus_1)
  moreover have "uint (brk_max s) < 2 ^ 64"
    using uint_lt2p [of "brk_max s"] by simp
  ultimately show False
    using assms by simp
qed

lemma heap_path_rest_bounds:
  assumes h: "heap_list s1 cs1" and lo: "laid_out (cells s1) (unat (brk s1)) cs1"
    and al: "8 dvd unat (brk s1)"
    and hb: "unat (heap_base s1) \<le> start_of (unat (brk s1)) cs1"
    and nf: "status (cells s1 Head_brk) \<noteq> STATUS_FREE" and lim: "sz < BRK_LIMIT"
  shows "(\<forall>p s'. bindR (coalesce_blocks s1)
            (\<lambda>s2. bindR (search_best_fit s2 sz)
            (\<lambda>(return_addr, s3).
               if return_addr = 0 then Some (increase_heap s3 sz)
               else Some (Ok (return_addr, s3)))) = Some (Ok (p, s')) \<longrightarrow>
           heap_base s' \<le> p \<and> unat p + unat (SIZE_ALIGN sz) \<le> unat (brk s'))
     \<and> (uint (brk s1) + 131104 \<le> uint (brk_max s1) \<longrightarrow>
          (\<forall>m. bindR (coalesce_blocks s1)
            (\<lambda>s2. bindR (search_best_fit s2 sz)
            (\<lambda>(return_addr, s3).
               if return_addr = 0 then Some (increase_heap s3 sz)
               else Some (Ok (return_addr, s3)))) \<noteq> Some (Died m)))"
proof -
  let ?room = "\<lambda>s. uint (brk s) + 131104 \<le> uint (brk_max s)"
  let ?tail = "\<lambda>s2. bindR (search_best_fit s2 sz)
       (\<lambda>(return_addr, s3).
          if return_addr = 0 then Some (increase_heap s3 sz)
          else Some (Ok (return_addr, s3)))"
  let ?B = "\<lambda>r. (\<forall>p s'. r = Some (Ok (p, s')) \<longrightarrow>
           heap_base s' \<le> p \<and> unat p + unat (SIZE_ALIGN sz) \<le> unat (brk s'))
     \<and> (?room s1 \<longrightarrow> (\<forall>m. r \<noteq> Some (Died m)))"
  from coalesce_blocks_list [OF h] obtain r2 where
    r2: "coalesce_blocks s1 = Some r2" "brk s1 \<noteq> - 1 \<longrightarrow> r2 \<noteq> Died ''sbrk''"
      "\<forall>m. r2 = Died m \<longrightarrow> m = ''sbrk''" "\<forall>e. r2 \<noteq> Fault e"
    by blast
  have "?B (bindR (coalesce_blocks s1) ?tail)"
  proof (cases r2)
    case (Died m)
    with r2(2,3) have "?room s1 \<longrightarrow> False"
      using room_brk [of s1] by auto
    then show ?thesis
      unfolding r2(1) Died by (auto simp: bindR_simps)
  next
    case (Fault e)
    with r2(4) show ?thesis
      by simp
  next
    case (Ok s2)
    with r2(1) have c: "coalesce_blocks s1 = Some (Ok s2)"
      by simp
    from coalesce_blocks_layout [OF h lo c] obtain cs2 where
      l2: "heap_list s2 cs2" "laid_out (cells s2) (unat (brk s2)) cs2"
        "coalesced (cells s2) (unat (brk s2)) cs2"
        "start_of (unat (brk s2)) cs2 = start_of (unat (brk s1)) cs1" "relinked s1 s2"
      by blast
    have k2: "brk s2 = brk s1" "heap_base s2 = heap_base s1"
      "status (cells s2 Head_brk) \<noteq> STATUS_FREE" "brk_max s2 = brk_max s1"
      using l2(5) nf by (simp_all add: relinked_def same_kernel_def)
    have al2: "8 dvd unat (brk s2)" and hb2: "unat (heap_base s2) \<le> start_of (unat (brk s2)) cs2"
      using al hb l2(4) k2 by simp_all
    from best_fit_loop_result [OF l2(1)] obtain b where
      b: "best_fit_loop s2 sz (next (cells s2 Head_brk)) Null = Some b"
        "b = foldl (\<lambda>b c. best_fit_step s2 sz c b) Null cs2" "b = Null \<or> b \<in> set cs2"
      by blast
    have nn: "Null \<notin> set cs2"
      using l2(1) list_all_cell_not_head by (auto simp: heap_list_def)
    note fold = best_fit_fold [OF nn, of s2 sz, folded b(2)]
    have "?B (?tail s2)"
    proof (cases "b = Null")
      case True
      then have nofit: "\<forall>c\<in>set cs2. \<not> fits_raw s2 sz c"
        using fold nn by (auto split: if_splits)
      have "search_best_fit s2 sz = Some (Ok (0, s2))"
        using b(1) True by (simp add: search_best_fit_none)
      then have "?tail s2 = Some (increase_heap s2 sz)"
        by (simp add: bindR_simps)
      with increase_heap_bounds [OF lim l2(1,2,3) k2(3) nofit hb2] show ?thesis
        unfolding k2 by simp
    next
      case False
      then have mem: "b \<in> set cs2"
        using b(3) by simp
      then have ic: "is_cell b"
        using l2(1) by (auto simp: heap_list_def list_all_iff)
      have fr: "fits_raw s2 sz b"
        using fold False by (auto split: if_splits)
      from search_best_fit_found [OF b(1) ic lim] obtain r3 where
        r3: "search_best_fit s2 sz = Some r3" "\<forall>m. r3 = Died m \<longrightarrow> m = ''sbrk'' \<and> brk s2 = - 1"
          "\<forall>p s'. r3 = Ok (p, s') \<longrightarrow>
             p = addr_of b + META_DATA_SIZE \<and> block_at s' p STATUS_ALLOC (SIZE_ALIGN sz)
             \<and> same_kernel s2 s' \<and> brk s' = brk s2"
          "\<forall>e. r3 \<noteq> Fault e"
        by blast
      show ?thesis
      proof (cases r3)
        case (Died m)
        with r3(2) have "?room s1 \<longrightarrow> False"
          using room_brk [of s1] k2(1) by auto
        then show ?thesis
          unfolding r3(1) Died by (auto simp: bindR_simps)
      next
        case (Fault e)
        with r3(4) show ?thesis
          by simp
      next
        case (Ok y)
        obtain ra s3 where ys: "y = (ra, s3)"
          by (cases y)
        from r3(3) Ok ys
        have r: "ra = addr_of b + META_DATA_SIZE" "same_kernel s2 s3" "brk s3 = brk s2"
          by auto
        have "ra \<noteq> 0"
          using is_cell_addr [OF ic] r(1) by simp
        then have tl: "?tail s2 = Some (Ok (ra, s3))"
          unfolding r3(1) Ok ys by (simp add: bindR_simps)
        note m = laid_out_member [OF l2(2) mem]
        have e64: "unat (brk s2) < 2 ^ 64"
          using unsigned_less [of "brk s2", where 'a = nat] by simp
        have up: "unat ra = unat (addr_of b) + 32"
          unfolding r(1) META_DATA_SIZE_32
          using m(2) e64 unat_add_lem [of "addr_of b" 32] by (simp add: META_DATA_SIZE_32)
        have "8 dvd unat (size' (cells s2 b))"
          using coalesced_aligned [OF l2(3,2) al2] mem fr by (simp add: fits_raw_def)
        moreover have "unat sz \<le> 2 ^ 64 - 8"
          using lim by (simp add: BRK_LIMIT_def word_less_nat_alt)
        ultimately have "SIZE_ALIGN sz \<le> size' (cells s2 b)"
          using fr by (simp add: le_SIZE_ALIGN_iff fits_raw_def)
        then have "unat (SIZE_ALIGN sz) \<le> unat (size' (cells s2 b))"
          by (simp add: word_le_nat_alt)
        then have 1: "unat ra + unat (SIZE_ALIGN sz) \<le> unat (brk s3)"
          using m(2) up unfolding r(3) by (simp add: META_DATA_SIZE_32)
        have "unat (heap_base s2) \<le> unat (addr_of b)"
          using hb2 m(1) by simp
        moreover have "heap_base s3 = heap_base s2"
          using r(2) by (simp add: same_kernel_def)
        ultimately have "heap_base s3 \<le> ra"
          using up by (simp add: word_le_nat_alt)
        with 1 show ?thesis
          unfolding tl by simp
      qed
    qed
    then show ?thesis
      unfolding c by (simp add: bindR_simps)
  qed
  then show ?thesis
    by blast
qed

lemma heap_path_bounds:
  assumes "heap_safe s cs" "sz < BRK_LIMIT"
  shows "(\<forall>p s'. heap_path s sz = Some (Ok (p, s')) \<longrightarrow>
           heap_base s' \<le> p \<and> unat p + unat (SIZE_ALIGN sz) \<le> unat (brk s'))
     \<and> (uint (brk s) + 262176 \<le> uint (brk_max s) \<longrightarrow> (\<forall>m. heap_path s sz \<noteq> Some (Died m)))"
proof (cases "size' (cells s Head_brk) = 0")
  case True
  let ?rest = "\<lambda>s1. bindR (coalesce_blocks s1)
       (\<lambda>s2. bindR (search_best_fit s2 sz)
       (\<lambda>(return_addr, s3).
          if return_addr = 0 then Some (increase_heap s3 sz)
          else Some (Ok (return_addr, s3))))"
  have hp: "heap_path s sz = bindR (Some (heap_preallocation s)) ?rest"
    using True by (simp add: heap_path_def)
  have al: "8 dvd unat (brk s)" and hb: "heap_base s \<le> brk s"
    using assms(1) True by (simp_all add: heap_safe_def)
  show ?thesis
  proof (cases "heap_preallocation s")
    case (Died m)
    have "\<not> uint (brk s) + 262176 \<le> uint (brk_max s)"
    proof
      assume r: "uint (brk s) + 262176 \<le> uint (brk_max s)"
      have "brk (init_list_brk s) = brk s" "brk_max (init_list_brk s) = brk_max s"
        by (simp_all add: init_list_brk_def set_next_def set_prev_def set_status_def
              set_size_def Let_def)
      with r have "uint (brk (init_list_brk s)) + 131104 \<le> uint (brk_max (init_list_brk s))"
        by simp
      moreover have "BRK_LIMIT \<noteq> 0" "BRK_LIMIT \<le> BRK_LIMIT + META_DATA_SIZE"
        by (simp_all add: BRK_LIMIT_def META_DATA_SIZE_32)
      ultimately have "fst (sbrk (init_list_brk s) BRK_LIMIT) \<noteq> - 1"
        by (intro sbrk_room)
      with Died show False
        by (auto simp: heap_preallocation_def Let_def split: prod.splits if_splits)
    qed
    then show ?thesis
      unfolding hp Died by (simp add: bindR_simps)
  next
    case (Fault e)
    then show ?thesis
      by (simp add: heap_preallocation_no_Fault)
  next
    case (Ok s1)
    note pl = heap_preallocation_list [OF Ok] heap_preallocation_layout [OF Ok al]
    have hb1: "unat (heap_base s1) \<le> start_of (unat (brk s1)) [Cell (brk s)]"
      using hb pl(3) by (simp add: same_kernel_def word_le_nat_alt)
    have "uint (brk s1) + 131104 \<le> uint (brk_max s1)"
      if "uint (brk s) + 262176 \<le> uint (brk_max s)"
    proof -
      have "uint (brk s1) = uint (brk s) + 131072"
        using pl(6) unfolding uint_nat by simp
      moreover have "brk_max s1 = brk_max s"
        using pl(3) by (simp add: same_kernel_def)
      ultimately show ?thesis
        using that by simp
    qed
    with heap_path_rest_bounds [OF pl(1) pl(4) pl(5) hb1 pl(2) assms(2)] show ?thesis
      unfolding hp Ok by (simp add: bindR_simps)
  qed
next
  case False
  with assms(1) have f: "heap_list s cs" "status (cells s Head_brk) \<noteq> STATUS_FREE"
    "8 dvd unat (brk s)" "laid_out (cells s) (unat (brk s)) cs"
    "unat (heap_base s) \<le> start_of (unat (brk s)) cs"
    by (simp_all add: heap_safe_def heap_ready_def)
  have "heap_path s sz = bindR (coalesce_blocks s)
       (\<lambda>s2. bindR (search_best_fit s2 sz)
       (\<lambda>(return_addr, s3).
          if return_addr = 0 then Some (increase_heap s3 sz)
          else Some (Ok (return_addr, s3))))"
    using False by (simp add: heap_path_def bindR_simps)
  with heap_path_rest_bounds [OF f(1,4,3,5,2) assms(2)] show ?thesis
    by simp
qed

lemma unat_total_size:
  assumes "unat t \<le> 2 ^ 64 - 40"
  shows "unat (META_DATA_SIZE + SIZE_ALIGN t) = 32 + unat (SIZE_ALIGN t)"
proof -
  have "unat t \<le> 2 ^ 64 - 8"
    using assms by simp
  then have "unat (SIZE_ALIGN t) = (unat t + 7) div 8 * 8"
    by (rule unat_SIZE_ALIGN)
  moreover have "(unat t + 7) div 8 * 8 \<le> unat t + 7"
    by (rule div_times_less_eq_dividend)
  ultimately have "unat (32 :: 64 word) + unat (SIZE_ALIGN t) < 2 ^ LENGTH(64)"
    using assms by simp
  then have "unat (32 + SIZE_ALIGN t) = unat (32 :: 64 word) + unat (SIZE_ALIGN t)"
    using unat_add_lem [of 32 "SIZE_ALIGN t"] by blast
  then show ?thesis
    by (simp add: META_DATA_SIZE_32)
qed

lemma mapping_covers_payload:
  assumes "unat t \<le> 2 ^ 64 - 40"
  shows "covers (p - META_DATA_SIZE) (META_DATA_SIZE + SIZE_ALIGN t) p (SIZE_ALIGN t)"
  unfolding covers_def unat_total_size [OF assms] by (simp add: META_DATA_SIZE_32)

lemma add_meta_cell_mmap_granted:
  assumes "META_DATA_SIZE + SIZE_ALIGN sz \<noteq> 0" "mmap_ret s (mmap_calls s) \<noteq> MAP_FAILED"
  shows "add_meta_cell_mmap s sz \<noteq> Died m"
  using assms
  by (simp add: add_meta_cell_mmap_def Let_def mmap_def init_list_mmap_def
        set_next_def set_prev_def set_status_def set_size_def split: prod.splits)

lemma os_calloc_result:
  assumes hs: "heap_safe s cs" and t0: "t \<noteq> 0" and tb: "unat t \<le> 2 ^ 64 - 40"
    and t: "nmemb * sz = t"
  shows "\<exists>r. os_calloc s nmemb sz = Some r
     \<and> (\<forall>m. r = Died m \<longrightarrow> m = (if min (pagesize s) 4080 \<le> t then ''mmap'' else ''sbrk''))
     \<and> (\<forall>e. r \<noteq> Fault e)
     \<and> (\<forall>p s'. r = Ok (p, s') \<longrightarrow>
           block_at s' p (if min (pagesize s) 4080 \<le> t then STATUS_MAPPED else STATUS_ALLOC)
             (SIZE_ALIGN t)
           \<and> bytes s' = (\<lambda>a. if a - p < SIZE_ALIGN t then 0 else bytes s a)
           \<and> trace s' = trace s
               @ (if min (pagesize s) 4080 \<le> t
                  then [Mmap (p - META_DATA_SIZE) (META_DATA_SIZE + SIZE_ALIGN t)] else [])
               @ [Memset p (SIZE_ALIGN t)])
     \<and> ((if min (pagesize s) 4080 \<le> t then mmap_ret s (mmap_calls s) \<noteq> MAP_FAILED
          else uint (brk s) + 262176 \<le> uint (brk_max s))
         \<longrightarrow> (\<forall>m. r \<noteq> Died m))"
proof -
  let ?th = "min (pagesize s) 4080 \<le> t"
  let ?st = "if ?th then STATUS_MAPPED else STATUS_ALLOC"
  let ?msg = "if ?th then ''mmap'' else ''sbrk''"
  let ?ev = "if ?th then [Mmap (p - META_DATA_SIZE) (META_DATA_SIZE + SIZE_ALIGN t)] else []"
  let ?alloc = "if ?th then Some (add_meta_cell_mmap s t) else heap_path s t"
  let ?grant = "if ?th then mmap_ret s (mmap_calls s) \<noteq> MAP_FAILED
                else uint (brk s) + 262176 \<le> uint (brk_max s)"
  have "\<exists>r. ?alloc = Some r \<and> (\<forall>m. r = Died m \<longrightarrow> m = ?msg) \<and> (\<forall>e. r \<noteq> Fault e)
          \<and> (\<forall>p s4. r = Ok (p, s4) \<longrightarrow>
                block_at s4 p ?st (SIZE_ALIGN t) \<and> bytes s4 = bytes s
                \<and> trace s4 = trace s
                    @ (if ?th then [Mmap (p - META_DATA_SIZE) (META_DATA_SIZE + SIZE_ALIGN t)]
                       else [])
                \<and> accessible s4 p (SIZE_ALIGN t))
          \<and> (?grant \<longrightarrow> (\<forall>m. r \<noteq> Died m))"
  proof (cases ?th)
    case True
    have "accessible s4 p (SIZE_ALIGN t)"
      if "maps s4 = maps s @ [(p - META_DATA_SIZE, META_DATA_SIZE + SIZE_ALIGN t)]" for s4 p
      unfolding accessible_def that using mapping_covers_payload [OF tb, of p] by simp
    moreover have "META_DATA_SIZE + SIZE_ALIGN t \<noteq> 0"
      using unat_total_size [OF tb] by (metis add_is_0 unat_0 zero_neq_numeral)
    ultimately show ?thesis
      using True add_meta_cell_mmap_result [of s t] add_meta_cell_mmap_granted [of t s]
      by simp
  next
    case False
    then have "t < 4080"
      by (auto simp: min_def not_le split: if_splits)
    then have lim: "t < BRK_LIMIT"
      unfolding BRK_LIMIT_def by (rule less_trans) simp
    have hr: "heap_ready s cs"
      using hs by (simp add: heap_safe_def)
    from heap_path_result [OF hr lim] obtain r where
      r: "heap_path s t = Some r" "\<forall>m. r = Died m \<longrightarrow> m = ''sbrk''"
        "\<forall>p s'. r = Ok (p, s') \<longrightarrow>
           p \<noteq> 0 \<and> block_at s' p STATUS_ALLOC (SIZE_ALIGN t) \<and> same_kernel s s'"
        "\<forall>e. r \<noteq> Fault e"
      by blast
    note hb = heap_path_bounds [OF hs lim, unfolded r(1)]
    have "accessible s4 p (SIZE_ALIGN t)" if "r = Ok (p, s4)" for p s4
      using hb that by (simp add: accessible_def)
    moreover have "uint (brk s) + 262176 \<le> uint (brk_max s) \<longrightarrow> (\<forall>m. r \<noteq> Died m)"
      using hb by simp
    ultimately show ?thesis
      using r False by (auto simp: same_kernel_def)
  qed
  then obtain r where r: "?alloc = Some r" "\<forall>m. r = Died m \<longrightarrow> m = ?msg" "\<forall>e. r \<noteq> Fault e"
    "\<forall>p s4. r = Ok (p, s4) \<longrightarrow>
       block_at s4 p ?st (SIZE_ALIGN t) \<and> bytes s4 = bytes s
       \<and> trace s4 = trace s
           @ (if ?th then [Mmap (p - META_DATA_SIZE) (META_DATA_SIZE + SIZE_ALIGN t)] else [])
       \<and> accessible s4 p (SIZE_ALIGN t)"
    "?grant \<longrightarrow> (\<forall>m. r \<noteq> Died m)"
    by blast
  have c: "os_calloc s nmemb sz = bindR (Some r)
      (\<lambda>(return_addr, s4).
         bindR (Some (memset s4 return_addr 0 (SIZE_ALIGN t)))
           (\<lambda>s5. Some (Ok (return_addr, s5))))"
    using t0 r(1) unfolding os_calloc_alt t by simp
  show ?thesis
  proof (cases r)
    case (Died m)
    with r(2,5) c show ?thesis
      by (simp add: bindR_simps)
  next
    case (Fault e)
    with r(3) show ?thesis
      by simp
  next
    case (Ok ps)
    obtain p s4 where ps: "ps = (p, s4)"
      by (cases ps)
    from r(4) Ok ps have b: "block_at s4 p ?st (SIZE_ALIGN t)" "bytes s4 = bytes s"
      "trace s4 = trace s
         @ (if ?th then [Mmap (p - META_DATA_SIZE) (META_DATA_SIZE + SIZE_ALIGN t)] else [])"
      "accessible s4 p (SIZE_ALIGN t)"
      by blast+
    let ?s5 = "s4\<lparr>bytes := (\<lambda>a. if a - p < SIZE_ALIGN t then 0 else bytes s4 a),
                   trace := trace s4 @ [Memset p (SIZE_ALIGN t)]\<rparr>"
    have "os_calloc s nmemb sz = Some (Ok (p, ?s5))"
      using c Ok ps b(4) by (simp add: bindR_simps memset_result)
    moreover have "block_at ?s5 p ?st (SIZE_ALIGN t)"
      using b(1) by (simp add: block_at_def)
    moreover have "bytes ?s5 = (\<lambda>a. if a - p < SIZE_ALIGN t then 0 else bytes s a)"
      unfolding b(2) by simp
    moreover have "trace ?s5 = trace s
         @ (if ?th then [Mmap (p - META_DATA_SIZE) (META_DATA_SIZE + SIZE_ALIGN t)] else [])
         @ [Memset p (SIZE_ALIGN t)]"
      unfolding b(3) by simp
    ultimately show ?thesis
      by (intro exI [of _ "Ok (p, ?s5)"]) blast
  qed
qed

lemmas scenario = ret_addr_def state_of_def heap_example_def full_state_def slack_state_def
  mapped_state_def frag_state_def init_state_def

section \<open>Resize: relocation and copy lengths\<close>

text \<open>
  Claim C1 says that every relocating resize copies min(old payload size, new
  payload size) bytes and never reads past the source payload. The code does not
  do so for a MAPPED block: \<^verbatim>\<open>os_realloc\<close> passes the requested size to
  \<^verbatim>\<open>memcpy\<close>. Here a MAPPED block with a payload of 131072 bytes, in a mapping
  of 131104 bytes, is resized to 262144 bytes: the call asks \<^verbatim>\<open>memcpy\<close> for
  262144 bytes out of the old payload, which reads past the end of the mapping,
  and the process faults.
\<close>

theorem resize_mapped_copies_requested_size:
  "ret_addr (os_malloc init_state 131072) = Some 0x7F0000000020
   \<and> status (cells mapped_state (Cell 0x7F0000000000)) = STATUS_MAPPED
   \<and> size' (cells mapped_state (Cell 0x7F0000000000)) = 131072
   \<and> maps mapped_state = [(0x7F0000000000, 131104)]
   \<and> os_realloc mapped_state 0x7F0000000020 262144
       = Some (Fault (Memcpy 0x7F0010000020 0x7F0000000020 262144))"
  by (simp add: scenario prims ops bindR_simps Let_def cong: evalc)

section \<open>The mapped list after two allocations\<close>

text \<open>
  Claim C2 says that a mapped allocation appends to the mapped list and that the
  blocks mapped before stay linked. In the code \<^verbatim>\<open>init_list_mmap\<close> leaves the
  sentinel's size at 0, so \<^verbatim>\<open>add_meta_cell_mmap\<close> initialises the list again at
  every call. After two mapped allocations both blocks are MAPPED, and the list
  that starts at the sentinel holds the second one only.
\<close>

theorem second_mapping_drops_first:
  "ret_addr (os_malloc init_state 131072) = Some 0x7F0000000020
   \<and> ret_addr (os_malloc mapped_state 200000) = Some 0x7F0010000020
   \<and> status (cells (state_of (os_malloc mapped_state 200000)) (Cell 0x7F0000000000))
       = STATUS_MAPPED
   \<and> status (cells (state_of (os_malloc mapped_state 200000)) (Cell 0x7F0010000000))
       = STATUS_MAPPED
   \<and> next (cells (state_of (os_malloc mapped_state 200000)) Head_mmap) = Cell 0x7F0010000000
   \<and> next (cells (state_of (os_malloc mapped_state 200000)) (Cell 0x7F0010000000)) = Head_mmap
   \<and> prev (cells (state_of (os_malloc mapped_state 200000)) Head_mmap) = Cell 0x7F0010000000
   \<and> prev (cells (state_of (os_malloc mapped_state 200000)) (Cell 0x7F0010000000)) = Head_mmap"
  by (simp add: scenario prims ops bindR_simps Let_def cong: evalc)

section \<open>Resize of the last heap block\<close>

text \<open>
  Claim C4, as stated, fails: \<^verbatim>\<open>os_realloc\<close> grows the last block in place only
  when \<^verbatim>\<open>coalesce_block\<close> left its size unchanged. In \<^const>\<open>slack_state\<close> the only
  block is ALLOCATED and last, with 131032 bytes, and the break is 8 bytes past
  its end. A resize to 131048 bytes finds no FREE block to merge with; the
  block is given the 8 bytes, its size differs from the old one, and the call
  allocates a new block and returns its address.
\<close>

theorem resize_last_block_with_slack_moves:
  "ret_addr (os_malloc init_state 131032) = Some 0x10000020
   \<and> status (cells slack_state (Cell 0x10000000)) = STATUS_ALLOC
   \<and> next (cells slack_state (Cell 0x10000000)) = Head_brk
   \<and> size' (cells slack_state (Cell 0x10000000)) = 131032
   \<and> brk slack_state = 0x10020000
   \<and> SIZE_ALIGN 131048 = 131048
   \<and> ret_addr (os_realloc slack_state 0x10000020 131048) = Some 0x10020020
   \<and> trace (state_of (os_realloc slack_state 0x10000020 131048))
       = [Memcpy 0x10020020 0x10000020 131040]"
  by (simp add: scenario prims ops bindR_simps Let_def cong: evalc)

text \<open>
  Claim C4, amended: when the block is ALLOCATED, last in the heap list, its
  payload ends exactly at the program break, and the requested size is below
  the limit and larger than the block, \<^verbatim>\<open>os_realloc\<close> advances the break by the
  deficit, sets the size of the block to the aligned request and returns the
  same pointer; nothing else changes. When the kernel refuses to move the
  break, the process ends in \<^verbatim>\<open>DIE\<close>.
\<close>

theorem resize_last_block_in_place:
  assumes "p \<noteq> 0" "sz \<noteq> 0" "sz < BRK_LIMIT"
    and "status (cells s (Cell (p - META_DATA_SIZE))) = STATUS_ALLOC"
    and "size' (cells s (Cell (p - META_DATA_SIZE))) < SIZE_ALIGN sz"
    and "next (cells s (Cell (p - META_DATA_SIZE))) = Head_brk"
    and "brk s = p + size' (cells s (Cell (p - META_DATA_SIZE)))"
    and "brk s \<noteq> - 1"
  shows "os_realloc s p sz =
     (if uint (brk s) + uint (SIZE_ALIGN sz - size' (cells s (Cell (p - META_DATA_SIZE))))
           \<le> uint (brk_max s)
      then Some (Ok (p,
             s\<lparr>cells := (cells s)(Cell (p - META_DATA_SIZE) :=
                            (cells s (Cell (p - META_DATA_SIZE)))\<lparr>size' := SIZE_ALIGN sz\<rparr>),
               brk := brk s + (SIZE_ALIGN sz - size' (cells s (Cell (p - META_DATA_SIZE))))\<rparr>))
      else Some (Died ''sbrk''))"
proof -
  let ?c = "Cell (p - META_DATA_SIZE)"
  let ?inc = "SIZE_ALIGN sz - size' (cells s ?c)"
  have inc0: "?inc \<noteq> 0"
    using assms(5) by auto
  have "?inc \<le> SIZE_ALIGN sz"
    using assms(5) by (simp add: word_sub_le)
  then have "?inc \<le> BRK_LIMIT"
    using SIZE_ALIGN_below_limit [OF assms(3)] by simp
  then have sint: "sint ?inc = uint ?inc"
    by (rule sint_small)
  have stop: "brk s - (p - META_DATA_SIZE) - META_DATA_SIZE = size' (cells s ?c)"
    using assms(7) by simp
  have cb: "coalesce_block s ?c = Some (Ok s)"
    using assms(8) stop
    by (simp add: coalesce_block_def coalesce_loop_at_head sbrk_def Let_def
          set_next_same [OF assms(6)] set_size_same [OF refl] assms(6))
  have nl: "\<not> BRK_LIMIT \<le> sz" "\<not> SIZE_ALIGN sz \<le> size' (cells s ?c)"
    using assms(3,5) by simp_all
  have heap: "os_realloc_heap s p ?c sz =
     (if uint (brk s) + uint ?inc \<le> uint (brk_max s)
      then Some (Ok (p, set_size (s\<lparr>brk := brk s + ?inc\<rparr>) ?c (SIZE_ALIGN sz)))
      else Some (Died ''sbrk''))"
  proof -
    have ne: "SIZE_ALIGN sz \<noteq> size' (cells s ?c)"
      using assms(5) by auto
    have nn: "\<not> uint (brk s) + uint ?inc < 0"
      by (simp add: not_less)
    show ?thesis
      unfolding os_realloc_heap_def
      by (simp add: nl cb bindR_simps assms(6,8) sbrk_def ne nn sint Let_def not_le)
  qed
  have st: "status (cells (set_size (s\<lparr>brk := brk s + ?inc\<rparr>) ?c (SIZE_ALIGN sz)) ?c)
              \<noteq> STATUS_MAPPED"
    using assms(4) by (simp add: set_size_def STATUS_ALLOC_def STATUS_MAPPED_def)
  have nf: "status (cells s ?c) \<noteq> STATUS_FREE"
    using assms(4) by (simp add: status_distinct)
  show ?thesis
    unfolding os_realloc_def Let_def
    using st by (simp add: assms(1,2,4) nl heap bindR_simps set_size_def status_distinct)
qed


theorem resize_last_block_in_place_witness:
  "(0x10000020 :: addr) \<noteq> 0 \<and> (131056 :: 64 word) \<noteq> 0 \<and> 131056 < BRK_LIMIT
   \<and> status (cells full_state (Cell (0x10000020 - META_DATA_SIZE))) = STATUS_ALLOC
   \<and> size' (cells full_state (Cell (0x10000020 - META_DATA_SIZE))) < SIZE_ALIGN 131056
   \<and> next (cells full_state (Cell (0x10000020 - META_DATA_SIZE))) = Head_brk
   \<and> brk full_state = 0x10000020 + size' (cells full_state (Cell (0x10000020 - META_DATA_SIZE)))
   \<and> brk full_state \<noteq> - 1
   \<and> ret_addr (os_realloc full_state 0x10000020 131056) = Some 0x10000020
   \<and> brk (state_of (os_realloc full_state 0x10000020 131056)) = 0x10020010
   \<and> size' (cells (state_of (os_realloc full_state 0x10000020 131056)) (Cell 0x10000000))
       = 131056"
proof -
  have h1: "(0x10000020 :: addr) \<noteq> 0" "(131056 :: 64 word) \<noteq> 0" "131056 < BRK_LIMIT"
    by (simp_all add: BRK_LIMIT_def)
  have h4: "status (cells full_state (Cell (0x10000020 - META_DATA_SIZE))) = STATUS_ALLOC"
    by (simp add: scenario prims ops bindR_simps Let_def cong: evalc)
  have h5: "size' (cells full_state (Cell (0x10000020 - META_DATA_SIZE))) < SIZE_ALIGN 131056"
    by (simp add: scenario prims ops bindR_simps Let_def cong: evalc)
  have h6: "next (cells full_state (Cell (0x10000020 - META_DATA_SIZE))) = Head_brk"
    by (simp add: scenario prims ops bindR_simps Let_def cong: evalc)
  have h7: "brk full_state
              = 0x10000020 + size' (cells full_state (Cell (0x10000020 - META_DATA_SIZE)))"
    by (simp add: scenario prims ops bindR_simps Let_def cong: evalc)
  have h8: "brk full_state \<noteq> - 1"
    by (simp add: scenario prims ops bindR_simps Let_def cong: evalc)
  have v: "size' (cells full_state (Cell 0x10000000)) = 131040"
    "brk full_state = 0x10020000" "brk_max full_state = 0x20000000"
    by (simp_all add: scenario prims ops bindR_simps Let_def cong: evalc)
  have a: "SIZE_ALIGN 131056 = 131056" "META_DATA_SIZE = 32"
    by (simp_all add: prims)
  note r = resize_last_block_in_place [OF h1 h4 h5 h6 h7 h8]
  have "ret_addr (os_realloc full_state 0x10000020 131056) = Some 0x10000020"
    "brk (state_of (os_realloc full_state 0x10000020 131056)) = 0x10020010"
    "size' (cells (state_of (os_realloc full_state 0x10000020 131056)) (Cell 0x10000000))
       = 131056"
    unfolding r by (simp_all add: v a ret_addr_def state_of_def)
  with h1 h4 h5 h6 h7 h8 show ?thesis
    by blast
qed

section \<open>Resize with a null pointer or a zero size\<close>

text \<open>
  Claim C7: \<^verbatim>\<open>os_realloc(NULL, n)\<close> gives the result and the state of
  \<^verbatim>\<open>os_malloc(n)\<close>, for every n (also when the call does not return or ends the
  process); and \<^verbatim>\<open>os_realloc(p, 0)\<close> returns null in the state \<^verbatim>\<open>os_free(p)\<close>
  leaves, for every p.
\<close>

theorem os_realloc_null_or_zero:
  "os_realloc s 0 n = os_malloc s n \<and> os_realloc s p 0 = Some (Ok (0, os_free s p))"
  by (simp add: os_realloc_def os_malloc_def os_free_def BRK_LIMIT_def)

section \<open>Free\<close>

text \<open>
  Claim C8: freeing a pointer to an ALLOCATED block changes the status field of
  that header to FREE and nothing else: the state after the call is the state
  before it with this one field updated, so the size and the links of the
  block, every other header (the heap list with them), the break, the bytes and
  the mappings are as before.
\<close>

theorem os_free_allocated_flips_status_only:
  assumes "p \<noteq> 0"
    and "status (cells s (Cell (p - META_DATA_SIZE))) = STATUS_ALLOC"
  shows "os_free s p =
     s\<lparr>cells := (cells s)(Cell (p - META_DATA_SIZE) :=
                    (cells s (Cell (p - META_DATA_SIZE)))\<lparr>status := STATUS_FREE\<rparr>)\<rparr>"
  using assms by (simp add: os_free_def set_status_def status_distinct Let_def)

theorem os_free_allocated_flips_status_only_witness:
  "(0x10000020 :: addr) \<noteq> 0
   \<and> status (cells heap_example (Cell (0x10000020 - META_DATA_SIZE))) = STATUS_ALLOC
   \<and> os_free heap_example 0x10000020 =
       heap_example\<lparr>cells := (cells heap_example)(Cell (0x10000020 - META_DATA_SIZE) :=
          (cells heap_example (Cell (0x10000020 - META_DATA_SIZE)))\<lparr>status := STATUS_FREE\<rparr>)\<rparr>"
proof -
  have h1: "(0x10000020 :: addr) \<noteq> 0"
    by simp
  have h2: "status (cells heap_example (Cell (0x10000020 - META_DATA_SIZE))) = STATUS_ALLOC"
    by (simp add: scenario prims ops bindR_simps Let_def cong: evalc)
  from h1 h2 os_free_allocated_flips_status_only [OF h1 h2] show ?thesis
    by blast
qed

text \<open>
  Claim C9: when the status of the header is already FREE, \<^verbatim>\<open>os_free\<close> leaves the
  state as it is; in particular the second of two calls of \<^verbatim>\<open>os_free\<close> on an
  ALLOCATED block changes nothing.
\<close>

theorem os_free_of_free_block_is_noop:
  "(status (cells s (Cell (p - META_DATA_SIZE))) = STATUS_FREE \<longrightarrow> os_free s p = s)
   \<and> (status (cells s (Cell (p - META_DATA_SIZE))) = STATUS_ALLOC
        \<longrightarrow> os_free (os_free s p) p = os_free s p)"
  by (simp add: os_free_def set_status_def status_distinct Let_def)

theorem os_free_of_free_block_is_noop_witness:
  "status (cells heap_example (Cell (0x10000020 - META_DATA_SIZE))) = STATUS_ALLOC
   \<and> os_free (os_free heap_example 0x10000020) 0x10000020 = os_free heap_example 0x10000020
   \<and> status (cells heap_example (Cell (0x100000A8 - META_DATA_SIZE))) = STATUS_FREE
   \<and> os_free heap_example 0x100000A8 = heap_example"
proof -
  have h1: "status (cells heap_example (Cell (0x10000020 - META_DATA_SIZE))) = STATUS_ALLOC"
    by (simp add: scenario prims ops bindR_simps Let_def cong: evalc)
  have h2: "status (cells heap_example (Cell (0x100000A8 - META_DATA_SIZE))) = STATUS_FREE"
    by (simp add: scenario prims ops bindR_simps Let_def cong: evalc)
  from h1 h2 os_free_of_free_block_is_noop [of heap_example "0x10000020"]
    os_free_of_free_block_is_noop [of heap_example "0x100000A8"]
  show ?thesis
    by blast
qed

section \<open>Zeroed allocation: the product of count and size\<close>



section \<open>Routing of an allocation\<close>

text \<open>
  Claim C3, as stated, fails: \<^verbatim>\<open>os_malloc\<close> compares the requested size, not the
  aligned one, with the limit. A request of 131071 bytes has the aligned size
  131072, which is the limit, and is served from the heap: the block returned
  is ALLOCATED and linked in the heap list, and no mapping was asked for.
\<close>

theorem malloc_aligned_limit_goes_to_heap:
  "SIZE_ALIGN 131071 = BRK_LIMIT
   \<and> ret_addr (os_malloc init_state 131071) = Some 0x10000020
   \<and> status (cells (state_of (os_malloc init_state 131071)) (Cell 0x10000000)) = STATUS_ALLOC
   \<and> next (cells (state_of (os_malloc init_state 131071)) Head_brk) = Cell 0x10000000
   \<and> mmap_calls (state_of (os_malloc init_state 131071)) = 0
   \<and> trace (state_of (os_malloc init_state 131071)) = []"
  by (simp add: scenario prims ops bindR_simps Let_def cong: evalc)

text \<open>
  Claim C3, amended: for every nonzero size, \<^verbatim>\<open>os_malloc\<close> goes to
  \<^verbatim>\<open>add_meta_cell_mmap\<close> exactly when the size as requested (not the aligned one)
  is at least \<^verbatim>\<open>BRK_LIMIT\<close>, and takes the heap path otherwise. On a heap that
  is not initialised yet or whose list is well formed the call ends; when it
  returns, the block returned is MAPPED and one more mapping was asked for in
  the first case, and it is ALLOCATED with no mapping asked for in the second;
  its size is the aligned request in both. The call never faults.
\<close>

theorem os_malloc_routing:
  assumes "heap_ready s cs" "sz \<noteq> 0"
  shows "os_malloc s sz = (if BRK_LIMIT \<le> sz then Some (add_meta_cell_mmap s sz) else heap_path s sz)
     \<and> (\<exists>r. os_malloc s sz = Some r
          \<and> (\<forall>m. r = Died m \<longrightarrow> m = (if BRK_LIMIT \<le> sz then ''mmap'' else ''sbrk''))
          \<and> (\<forall>p s'. r = Ok (p, s') \<longrightarrow>
                block_at s' p (if BRK_LIMIT \<le> sz then STATUS_MAPPED else STATUS_ALLOC)
                  (SIZE_ALIGN sz)
                \<and> mmap_calls s' = (if BRK_LIMIT \<le> sz then Suc (mmap_calls s) else mmap_calls s)
                \<and> trace s' = (if BRK_LIMIT \<le> sz
                     then trace s @ [Mmap (p - META_DATA_SIZE) (META_DATA_SIZE + SIZE_ALIGN sz)]
                     else trace s))
          \<and> (\<forall>e. r \<noteq> Fault e))"
proof (cases "BRK_LIMIT \<le> sz")
  case True
  then show ?thesis
    using assms(2) add_meta_cell_mmap_result [of s sz] by (simp add: os_malloc_alt)
next
  case False
  then have "sz < BRK_LIMIT"
    by simp
  from heap_path_result [OF assms(1) this] show ?thesis
    using False assms(2) by (auto simp: os_malloc_alt same_kernel_def)
qed

theorem os_malloc_routing_witness:
  "heap_ready heap_example [Cell 0x10000000, Cell 0x10000088]
   \<and> (131071 :: 64 word) \<noteq> 0 \<and> (131072 :: 64 word) \<noteq> 0
   \<and> ret_addr (os_malloc heap_example 131071) = Some 0x100000A8
   \<and> block_at (state_of (os_malloc heap_example 131071)) 0x100000A8 STATUS_ALLOC 131072
   \<and> mmap_calls (state_of (os_malloc heap_example 131071)) = 0
   \<and> ret_addr (os_malloc heap_example 131072) = Some 0x7F0000000020
   \<and> block_at (state_of (os_malloc heap_example 131072)) 0x7F0000000020 STATUS_MAPPED 131072
   \<and> mmap_calls (state_of (os_malloc heap_example 131072)) = 1"
proof -
  have h: "heap_ready heap_example [Cell 0x10000000, Cell 0x10000088]"
    by (simp add: heap_ready_def heap_list_def scenario prims ops bindR_simps Let_def
          cong: evalc)
  have n: "(131071 :: 64 word) \<noteq> 0" "(131072 :: 64 word) \<noteq> 0"
    by simp_all
  have c: "\<not> BRK_LIMIT \<le> 131071" "BRK_LIMIT \<le> 131072" "SIZE_ALIGN 131071 = 131072"
    "SIZE_ALIGN 131072 = 131072" "mmap_calls heap_example = 0"
    by (simp_all add: scenario prims ops bindR_simps Let_def cong: evalc)
  have e1: "ret_addr (os_malloc heap_example 131071) = Some 0x100000A8"
    by (simp add: scenario prims ops bindR_simps Let_def cong: evalc)
  have e2: "ret_addr (os_malloc heap_example 131072) = Some 0x7F0000000020"
    by (simp add: scenario prims ops bindR_simps Let_def cong: evalc)
  from ret_addr_Some [OF e1] obtain s1 where
    s1: "os_malloc heap_example 131071 = Some (Ok (0x100000A8, s1))"
      "state_of (os_malloc heap_example 131071) = s1"
    by blast
  from ret_addr_Some [OF e2] obtain s2 where
    s2: "os_malloc heap_example 131072 = Some (Ok (0x7F0000000020, s2))"
      "state_of (os_malloc heap_example 131072) = s2"
    by blast
  from os_malloc_routing [OF h n(1), THEN conjunct2] s1(1)
  have "block_at s1 0x100000A8 STATUS_ALLOC 131072 \<and> mmap_calls s1 = 0"
    by (auto simp: c)
  then have 1: "block_at (state_of (os_malloc heap_example 131071)) 0x100000A8 STATUS_ALLOC 131072"
    "mmap_calls (state_of (os_malloc heap_example 131071)) = 0"
    unfolding s1(2) by simp_all
  from os_malloc_routing [OF h n(2), THEN conjunct2] s2(1)
  have "block_at s2 0x7F0000000020 STATUS_MAPPED 131072 \<and> mmap_calls s2 = 1"
    by (auto simp: c)
  then have 2: "block_at (state_of (os_malloc heap_example 131072)) 0x7F0000000020 STATUS_MAPPED 131072"
    "mmap_calls (state_of (os_malloc heap_example 131072)) = 1"
    unfolding s2(2) by simp_all
  from h n e1 e2 1 2 show ?thesis
    by blast
qed

section \<open>Best fit\<close>

text \<open>
  Claim C5: on a well-formed heap list whose FREE blocks have sizes that are
  multiples of 8, and for a request below the limit, the loop of
  \<^verbatim>\<open>search_best_fit\<close> ends with the block the specification describes: a FREE
  block of at least the aligned size such that no such block is smaller and
  every such block before it in the list is larger; \<^verbatim>\<open>search_best_fit\<close> returns the
  payload of that block, and so does \<^verbatim>\<open>os_malloc\<close>, whenever this is the state in
  which it searches. When no FREE block is large enough, the loop ends with
  the null pointer, \<^verbatim>\<open>search_best_fit\<close> returns null and leaves the state as it
  is, and the callers fall through to \<^verbatim>\<open>increase_heap\<close>: the result of
  \<^verbatim>\<open>os_malloc\<close> (and of the heap path it shares with \<^verbatim>\<open>os_calloc\<close>) is the result of
  \<^verbatim>\<open>increase_heap\<close> on that state, and \<^verbatim>\<open>os_calloc\<close> zeroes and returns the
  block that \<^verbatim>\<open>increase_heap\<close> returned.
\<close>

theorem search_best_fit_selects:
  assumes "heap_list s cs" "list_all (aligned_free s) cs" "sz < BRK_LIMIT" "brk s \<noteq> - 1"
  shows "if list_ex (fits s sz) cs
         then \<exists>b. is_best_fit s sz cs b
                \<and> best_fit_loop s sz (next (cells s Head_brk)) Null = Some b
                \<and> ret_addr (search_best_fit s sz) = Some (addr_of b + META_DATA_SIZE)
                \<and> (\<forall>s0. search_state s0 = Some (Ok s) \<and> sz \<noteq> 0 \<longrightarrow>
                      ret_addr (os_malloc s0 sz) = Some (addr_of b + META_DATA_SIZE))
         else best_fit_loop s sz (next (cells s Head_brk)) Null = Some Null
              \<and> search_best_fit s sz = Some (Ok (0, s))
              \<and> (\<forall>s0. search_state s0 = Some (Ok s) \<longrightarrow>
                    heap_path s0 sz = Some (increase_heap s sz)
                    \<and> (sz \<noteq> 0 \<longrightarrow> os_malloc s0 sz = Some (increase_heap s sz))
                    \<and> (\<forall>nmemb m. nmemb * m = sz \<and> sz \<noteq> 0 \<and> \<not> min (pagesize s0) 4080 \<le> sz \<longrightarrow>
                          (\<forall>x. increase_heap s sz = Died x \<longrightarrow>
                                os_calloc s0 nmemb m = Some (Died x))
                          \<and> (\<forall>p s4. increase_heap s sz = Ok (p, s4) \<longrightarrow>
                                os_calloc s0 nmemb m
                                  = bindR (Some (memset s4 p 0 (SIZE_ALIGN sz)))
                                      (\<lambda>s5. Some (Ok (p, s5))))))"
proof -
  let ?b = "foldl (\<lambda>b c. best_fit_step s sz c b) Null cs"
  let ?tail = "\<lambda>s2. bindR (search_best_fit s2 sz)
       (\<lambda>(return_addr, s3).
          if return_addr = 0 then Some (increase_heap s3 sz)
          else Some (Ok (return_addr, s3)))"
  from best_fit_loop_result [OF assms(1)]
  have loop: "best_fit_loop s sz (next (cells s Head_brk)) Null = Some ?b"
    by simp
  have nn: "Null \<notin> set cs" and ic: "list_all is_cell cs" and di: "distinct cs"
    using assms(1) list_all_cell_not_head by (auto simp: heap_list_def)
  have eq: "fits_raw s sz c \<longleftrightarrow> fits s sz c" if "c \<in> set cs" for c
    using that assms(2,3) by (intro fits_raw_iff) (simp_all add: list_all_iff)
  have hp: "heap_path s0 sz = ?tail s" if "search_state s0 = Some (Ok s)" for s0
    unfolding heap_path_alt that by (simp add: bindR_simps)
  have nl: "\<not> BRK_LIMIT \<le> sz"
    using assms(3) by simp
  have om: "os_malloc s0 sz = heap_path s0 sz" if "sz \<noteq> 0" for s0
    using that nl by (simp add: os_malloc_alt)
  note fold = best_fit_fold [OF nn, of s sz]
  show ?thesis
  proof (cases "list_ex (fits s sz) cs")
    case True
    then have "\<exists>c\<in>set cs. fits_raw s sz c"
      using eq by (auto simp: list_ex_iff)
    with fold obtain pre post where
      d: "cs = pre @ ?b # post" "fits_raw s sz ?b"
        "\<forall>c\<in>set pre. fits_raw s sz c \<longrightarrow> size' (cells s ?b) < size' (cells s c)"
        "\<forall>c\<in>set post. fits_raw s sz c \<longrightarrow> size' (cells s ?b) \<le> size' (cells s c)"
      by auto
    have sub: "set pre \<subseteq> set cs" "set post \<subseteq> set cs" "?b \<in> set cs"
      by (metis d(1) set_append Un_upper1 subset_refl,
          metis d(1) set_append set_subset_Cons Un_upper2 subset_trans,
          metis d(1) in_set_conv_decomp)
    have bf: "is_best_fit s sz cs ?b"
      using d sub eq by (intro is_best_fit_decomp [OF d(1) di]) auto
    have icb: "is_cell ?b"
      using sub(3) ic by (simp add: list_all_iff)
    from search_best_fit_found [OF loop icb assms(3)] assms(4)
    obtain s3 where s3: "search_best_fit s sz = Some (Ok (addr_of ?b + META_DATA_SIZE, s3))"
      by (metis result.exhaust surj_pair)
    then have ra: "ret_addr (search_best_fit s sz) = Some (addr_of ?b + META_DATA_SIZE)"
      by (simp add: ret_addr_def)
    have "?tail s = Some (Ok (addr_of ?b + META_DATA_SIZE, s3))"
      unfolding s3 using is_cell_addr [OF icb] by (simp add: bindR_simps)
    then have "ret_addr (os_malloc s0 sz) = Some (addr_of ?b + META_DATA_SIZE)"
      if "search_state s0 = Some (Ok s) \<and> sz \<noteq> 0" for s0
      using that om [of s0] hp [of s0] by (simp add: ret_addr_def)
    with bf loop ra True show ?thesis
      by auto
  next
    case False
    then have "\<not> (\<exists>c\<in>set cs. fits_raw s sz c)"
      using eq by (auto simp: list_ex_iff)
    with fold have "?b = Null"
      by simp
    with loop have l: "best_fit_loop s sz (next (cells s Head_brk)) Null = Some Null"
      by simp
    note sn = search_best_fit_none [OF l]
    have tl: "?tail s = Some (increase_heap s sz)"
      unfolding sn by (simp add: bindR_simps)
    have 1: "heap_path s0 sz = Some (increase_heap s sz)"
      if "search_state s0 = Some (Ok s)" for s0
      using hp [OF that] tl by simp
    have 2: "os_malloc s0 sz = Some (increase_heap s sz)"
      if "search_state s0 = Some (Ok s)" "sz \<noteq> 0" for s0
      using om [OF that(2)] 1 [OF that(1)] by simp
    have 3: "os_calloc s0 nmemb m = Some (Died x)"
      if "search_state s0 = Some (Ok s)" "nmemb * m = sz \<and> sz \<noteq> 0 \<and> \<not> min (pagesize s0) 4080 \<le> sz"
        "increase_heap s sz = Died x" for s0 nmemb m x
      using that(2,3) 1 [OF that(1)] by (simp add: os_calloc_alt bindR_simps)
    have 4: "os_calloc s0 nmemb m
        = bindR (Some (memset s4 p 0 (SIZE_ALIGN sz))) (\<lambda>s5. Some (Ok (p, s5)))"
      if "search_state s0 = Some (Ok s)" "nmemb * m = sz \<and> sz \<noteq> 0 \<and> \<not> min (pagesize s0) 4080 \<le> sz"
        "increase_heap s sz = Ok (p, s4)" for s0 nmemb m p s4
      using that(2,3) 1 [OF that(1)] by (simp add: os_calloc_alt bindR_simps)
    show ?thesis
      using False l sn 1 2 3 4 by simp
  qed
qed

theorem search_best_fit_selects_witness:
  "search_state frag_state = Some (Ok (searched frag_state))
   \<and> heap_list (searched frag_state) [Cell 0x10000000, Cell 0x10000088, Cell 0x10000170,
       Cell 0x100001F8, Cell 0x10000348, Cell 0x100003A8, Cell 0x100003D8]
   \<and> list_all (aligned_free (searched frag_state)) [Cell 0x10000000, Cell 0x10000088,
       Cell 0x10000170, Cell 0x100001F8, Cell 0x10000348, Cell 0x100003A8, Cell 0x100003D8]
   \<and> (100 :: 64 word) < BRK_LIMIT \<and> brk (searched frag_state) \<noteq> - 1
   \<and> size' (cells (searched frag_state) (Cell 0x10000000)) = 104
   \<and> size' (cells (searched frag_state) (Cell 0x10000170)) = 104
   \<and> size' (cells (searched frag_state) (Cell 0x10000348)) = 64
   \<and> size' (cells (searched frag_state) (Cell 0x100003D8)) = 130056
   \<and> (\<exists>b. is_best_fit (searched frag_state) 100 [Cell 0x10000000, Cell 0x10000088,
              Cell 0x10000170, Cell 0x100001F8, Cell 0x10000348, Cell 0x100003A8,
              Cell 0x100003D8] b
          \<and> ret_addr (search_best_fit (searched frag_state) 100)
               = Some (addr_of b + META_DATA_SIZE)
          \<and> ret_addr (os_malloc frag_state 100) = Some (addr_of b + META_DATA_SIZE))
   \<and> ret_addr (os_malloc frag_state 100) = Some 0x10000020
   \<and> (\<exists>b. is_best_fit (searched frag_state) 50 [Cell 0x10000000, Cell 0x10000088,
              Cell 0x10000170, Cell 0x100001F8, Cell 0x10000348, Cell 0x100003A8,
              Cell 0x100003D8] b
          \<and> ret_addr (search_best_fit (searched frag_state) 50)
               = Some (addr_of b + META_DATA_SIZE)
          \<and> ret_addr (os_malloc frag_state 50) = Some (addr_of b + META_DATA_SIZE))
   \<and> ret_addr (os_malloc frag_state 50) = Some 0x10000368
   \<and> (131000 :: 64 word) < BRK_LIMIT
   \<and> search_best_fit (searched frag_state) 131000 = Some (Ok (0, searched frag_state))
   \<and> os_malloc frag_state 131000 = Some (increase_heap (searched frag_state) 131000)
   \<and> ret_addr (os_malloc frag_state 131000) = Some 0x100003F8
   \<and> brk (state_of (os_malloc frag_state 131000)) = 0x100203B0"
proof -
  let ?cs = "[Cell 0x10000000, Cell 0x10000088, Cell 0x10000170, Cell 0x100001F8,
       Cell 0x10000348, Cell 0x100003A8, Cell 0x100003D8]"
  let ?s = "searched frag_state"
  note sc = searched_def search_state_def scenario prims ops bindR_simps Let_def
  have "case search_state frag_state of Some (Ok s2) \<Rightarrow> True | _ \<Rightarrow> False"
    by (simp add: sc cong: evalc)
  then have h0: "search_state frag_state = Some (Ok ?s)"
    by (rule searched_Some)
  have h1: "heap_list ?s ?cs"
    by (simp add: heap_list_def sc cong: evalc)
  have h2: "list_all (aligned_free ?s) ?cs"
    by (simp add: aligned_free_def sc cong: evalc)
  have h3: "(100 :: 64 word) < BRK_LIMIT" "(50 :: 64 word) < BRK_LIMIT"
    "(131000 :: 64 word) < BRK_LIMIT"
    by (simp_all add: BRK_LIMIT_def)
  have h4: "brk ?s \<noteq> - 1"
    by (simp add: sc cong: evalc)
  have n: "(100 :: 64 word) \<noteq> 0" "(50 :: 64 word) \<noteq> 0" "(131000 :: 64 word) \<noteq> 0"
    by simp_all
  have f: "list_ex (fits ?s 100) ?cs" "list_ex (fits ?s 50) ?cs"
    "\<not> list_ex (fits ?s 131000) ?cs"
    by (simp_all add: fits_def sc cong: evalc)
  have v: "size' (cells ?s (Cell 0x10000000)) = 104"
    "size' (cells ?s (Cell 0x10000170)) = 104"
    "size' (cells ?s (Cell 0x10000348)) = 64"
    "size' (cells ?s (Cell 0x100003D8)) = 130056"
    by (simp_all add: sc cong: evalc)
  have e: "ret_addr (os_malloc frag_state 100) = Some 0x10000020"
    "ret_addr (os_malloc frag_state 50) = Some 0x10000368"
    "ret_addr (os_malloc frag_state 131000) = Some 0x100003F8"
    "brk (state_of (os_malloc frag_state 131000)) = 0x100203B0"
    by (simp_all add: sc cong: evalc)
  note t1 = search_best_fit_selects [OF h1 h2 h3(1) h4, unfolded if_P [OF f(1)]]
  note t2 = search_best_fit_selects [OF h1 h2 h3(2) h4, unfolded if_P [OF f(2)]]
  note t3 = search_best_fit_selects [OF h1 h2 h3(3) h4, unfolded if_not_P [OF f(3)]]
  from t1 h0 n(1) have 1: "\<exists>b. is_best_fit ?s 100 ?cs b
      \<and> ret_addr (search_best_fit ?s 100) = Some (addr_of b + META_DATA_SIZE)
      \<and> ret_addr (os_malloc frag_state 100) = Some (addr_of b + META_DATA_SIZE)"
    by blast
  from t2 h0 n(2) have 2: "\<exists>b. is_best_fit ?s 50 ?cs b
      \<and> ret_addr (search_best_fit ?s 50) = Some (addr_of b + META_DATA_SIZE)
      \<and> ret_addr (os_malloc frag_state 50) = Some (addr_of b + META_DATA_SIZE)"
    by blast
  from t3 h0 n(3) have 3: "search_best_fit ?s 131000 = Some (Ok (0, ?s))"
    "os_malloc frag_state 131000 = Some (increase_heap ?s 131000)"
    by blast+
  from h0 h1 h2 h3(1,3) h4 v e 1 2 3 show ?thesis
    by blast
qed

section \<open>Zeroed allocation\<close>

text \<open>
  Claim C6, as stated, fails for products close to 2^64: \<^verbatim>\<open>add_meta_cell_mmap\<close>
  adds the header size to the aligned size with no check, so for a product of
  2^64 - 24 the sum wraps to 8. The kernel grants a mapping of 8 bytes, and
  \<^verbatim>\<open>os_calloc\<close> asks \<^verbatim>\<open>memset\<close> to zero 2^64 - 24 bytes from the payload address:
  the call does not return a zeroed payload, the process faults.
\<close>

theorem os_calloc_huge_product_faults:
  "(0xFFFFFFFFFFFFFFE8 :: 64 word) * 1 \<noteq> 0
   \<and> unat (0xFFFFFFFFFFFFFFE8 * 1 :: 64 word) = 2 ^ 64 - 24
   \<and> SIZE_ALIGN (0xFFFFFFFFFFFFFFE8 * 1) = 0xFFFFFFFFFFFFFFE8
   \<and> META_DATA_SIZE + SIZE_ALIGN (0xFFFFFFFFFFFFFFE8 * 1) = 8
   \<and> heap_safe init_state []
   \<and> mmap_ret init_state (mmap_calls init_state) \<noteq> MAP_FAILED
   \<and> os_calloc init_state 0xFFFFFFFFFFFFFFE8 1
       = Some (Fault (Memset 0x7F0000000020 0xFFFFFFFFFFFFFFE8))"
  by (simp add: heap_safe_def heap_ready_def scenario prims ops bindR_simps Let_def cong: evalc)

text \<open>
  Claim C6, amended: when the product of count and size is zero, \<^verbatim>\<open>os_calloc\<close>
  returns null and changes nothing. When it is not zero and at most 2^64 - 40
  (so that the aligned size plus the header size does not wrap), on a heap
  that is not initialised yet or whose blocks lie in order below the break,
  the call ends and does not fault. When it returns a pointer, the first
  \<^verbatim>\<open>SIZE_ALIGN(count * size)\<close> bytes from that pointer are zero and they are the
  payload of the block in front of which the header stands: a MAPPED block when
  the product reaches the page threshold, an ALLOCATED heap block otherwise.
  The only other outcome is the end of the process in \<^verbatim>\<open>DIE\<close>, when the kernel
  refuses memory; the call does return when the kernel grants the mapping
  (mapped path), or when the break may still grow by 262176 bytes, the pool
  and the largest heap block with its header (heap path).
\<close>

theorem os_calloc_zeroes_payload:
  assumes "heap_safe s cs" "unat (nmemb * sz) \<le> 2 ^ 64 - 40"
  shows "(nmemb * sz = 0 \<longrightarrow> os_calloc s nmemb sz = Some (Ok (0, s)))
     \<and> (nmemb * sz \<noteq> 0 \<longrightarrow>
          (\<exists>r. os_calloc s nmemb sz = Some r
             \<and> (\<forall>e. r \<noteq> Fault e)
             \<and> (\<forall>m. r = Died m \<longrightarrow>
                   m = (if min (pagesize s) 4080 \<le> nmemb * sz then ''mmap'' else ''sbrk''))
             \<and> ((if min (pagesize s) 4080 \<le> nmemb * sz
                  then mmap_ret s (mmap_calls s) \<noteq> MAP_FAILED
                  else uint (brk s) + 262176 \<le> uint (brk_max s))
                 \<longrightarrow> (\<exists>p s'. r = Ok (p, s')))
             \<and> (\<forall>p s'. r = Ok (p, s') \<longrightarrow>
                   (\<forall>i. i < SIZE_ALIGN (nmemb * sz) \<longrightarrow> bytes s' (p + i) = 0)
                   \<and> block_at s' p
                        (if min (pagesize s) 4080 \<le> nmemb * sz
                         then STATUS_MAPPED else STATUS_ALLOC)
                        (SIZE_ALIGN (nmemb * sz)))))"
proof (intro conjI impI)
  assume "nmemb * sz = 0"
  then show "os_calloc s nmemb sz = Some (Ok (0, s))"
    by (simp add: os_calloc_alt)
next
  assume nz: "nmemb * sz \<noteq> 0"
  let ?t = "nmemb * sz"
  let ?th = "min (pagesize s) 4080 \<le> ?t"
  from os_calloc_result [OF assms(1) nz assms(2) refl] obtain r where
    r: "os_calloc s nmemb sz = Some r"
      "\<forall>m. r = Died m \<longrightarrow> m = (if ?th then ''mmap'' else ''sbrk'')"
      "\<forall>e. r \<noteq> Fault e"
      "\<forall>p s'. r = Ok (p, s') \<longrightarrow>
         block_at s' p (if ?th then STATUS_MAPPED else STATUS_ALLOC) (SIZE_ALIGN ?t)
         \<and> bytes s' = (\<lambda>a. if a - p < SIZE_ALIGN ?t then 0 else bytes s a)"
      "(if ?th then mmap_ret s (mmap_calls s) \<noteq> MAP_FAILED
        else uint (brk s) + 262176 \<le> uint (brk_max s)) \<longrightarrow> (\<forall>m. r \<noteq> Died m)"
    by blast
  have ok: "\<exists>p s'. r = Ok (p, s')" if "\<forall>m. r \<noteq> Died m"
    using that r(3) by (cases r) auto
  have z: "\<forall>i. i < SIZE_ALIGN ?t \<longrightarrow> bytes s' (p + i) = 0"
    if "bytes s' = (\<lambda>a. if a - p < SIZE_ALIGN ?t then 0 else bytes s a)" for s' p
    unfolding that by simp
  show "\<exists>r. os_calloc s nmemb sz = Some r
      \<and> (\<forall>e. r \<noteq> Fault e)
      \<and> (\<forall>m. r = Died m \<longrightarrow> m = (if ?th then ''mmap'' else ''sbrk''))
      \<and> ((if ?th then mmap_ret s (mmap_calls s) \<noteq> MAP_FAILED
           else uint (brk s) + 262176 \<le> uint (brk_max s))
          \<longrightarrow> (\<exists>p s'. r = Ok (p, s')))
      \<and> (\<forall>p s'. r = Ok (p, s') \<longrightarrow>
            (\<forall>i. i < SIZE_ALIGN ?t \<longrightarrow> bytes s' (p + i) = 0)
            \<and> block_at s' p (if ?th then STATUS_MAPPED else STATUS_ALLOC) (SIZE_ALIGN ?t))"
    using r ok z by (intro exI [of _ r]) blast
qed

theorem os_calloc_zeroes_payload_witness:
  "heap_safe heap_example [Cell 0x10000000, Cell 0x10000088]
   \<and> unat (10 * 100 :: 64 word) \<le> 2 ^ 64 - 40 \<and> (10 * 100 :: 64 word) \<noteq> 0
   \<and> uint (brk heap_example) + 262176 \<le> uint (brk_max heap_example)
   \<and> ret_addr (os_calloc heap_example 10 100) = Some 0x100000A8
   \<and> bytes (state_of (os_calloc heap_example 10 100)) (0x100000A8 + 999) = 0
   \<and> block_at (state_of (os_calloc heap_example 10 100)) 0x100000A8 STATUS_ALLOC 1000
   \<and> bytes heap_example (0x100000A8 + 999) = 0xAA
   \<and> unat (5000 * 1 :: 64 word) \<le> 2 ^ 64 - 40 \<and> (5000 * 1 :: 64 word) \<noteq> 0
   \<and> mmap_ret heap_example (mmap_calls heap_example) \<noteq> MAP_FAILED
   \<and> ret_addr (os_calloc heap_example 5000 1) = Some 0x7F0000000020
   \<and> bytes (state_of (os_calloc heap_example 5000 1)) (0x7F0000000020 + 4999) = 0
   \<and> block_at (state_of (os_calloc heap_example 5000 1)) 0x7F0000000020 STATUS_MAPPED 5000
   \<and> unat (0 * 100 :: 64 word) \<le> 2 ^ 64 - 40 \<and> (0 * 100 :: 64 word) = 0
   \<and> os_calloc heap_example 0 100 = Some (Ok (0, heap_example))"
proof -
  have h: "heap_safe heap_example [Cell 0x10000000, Cell 0x10000088]"
    by (simp add: heap_safe_def heap_ready_def heap_list_def scenario prims ops bindR_simps
          Let_def cong: evalc)
  have b: "unat (10 * 100 :: 64 word) \<le> 2 ^ 64 - 40" "unat (5000 * 1 :: 64 word) \<le> 2 ^ 64 - 40"
    "unat (0 * 100 :: 64 word) \<le> 2 ^ 64 - 40"
    by simp_all
  have n: "(10 * 100 :: 64 word) \<noteq> 0" "(5000 * 1 :: 64 word) \<noteq> 0" "(0 * 100 :: 64 word) = 0"
    by simp_all
  have c: "\<not> min (pagesize heap_example) 4080 \<le> 10 * 100"
    "min (pagesize heap_example) 4080 \<le> 5000 * 1" "SIZE_ALIGN (10 * 100) = 1000"
    "SIZE_ALIGN (5000 * 1) = 5000" "(999 :: 64 word) < 1000" "(4999 :: 64 word) < 5000"
    "bytes heap_example (0x100000A8 + 999) = 0xAA"
    by (simp_all add: scenario prims ops bindR_simps Let_def cong: evalc)
  have g: "uint (brk heap_example) + 262176 \<le> uint (brk_max heap_example)"
    "mmap_ret heap_example (mmap_calls heap_example) \<noteq> MAP_FAILED"
    by (simp_all add: scenario prims ops bindR_simps Let_def cong: evalc)
  from os_calloc_zeroes_payload [OF h b(1), THEN conjunct2, rule_format, OF n(1)] c(1) g(1)
  obtain p1 s1 where s1: "os_calloc heap_example 10 100 = Some (Ok (p1, s1))"
    "\<forall>i. i < SIZE_ALIGN (10 * 100) \<longrightarrow> bytes s1 (p1 + i) = 0"
    "block_at s1 p1 STATUS_ALLOC (SIZE_ALIGN (10 * 100))"
    by auto
  have e1: "ret_addr (os_calloc heap_example 10 100) = Some 0x100000A8"
    by (simp add: scenario prims ops bindR_simps Let_def cong: evalc)
  have p1: "p1 = 0x100000A8" "state_of (os_calloc heap_example 10 100) = s1"
    using e1 unfolding s1(1) by (simp_all add: ret_addr_def state_of_def)
  have 1: "bytes (state_of (os_calloc heap_example 10 100)) (0x100000A8 + 999) = 0"
    "block_at (state_of (os_calloc heap_example 10 100)) 0x100000A8 STATUS_ALLOC 1000"
    using s1(2,3) c(5) unfolding p1 c(3) by blast+
  from os_calloc_zeroes_payload [OF h b(2), THEN conjunct2, rule_format, OF n(2)] c(2) g(2)
  obtain p2 s2 where s2: "os_calloc heap_example 5000 1 = Some (Ok (p2, s2))"
    "\<forall>i. i < SIZE_ALIGN (5000 * 1) \<longrightarrow> bytes s2 (p2 + i) = 0"
    "block_at s2 p2 STATUS_MAPPED (SIZE_ALIGN (5000 * 1))"
    by auto
  have e2: "ret_addr (os_calloc heap_example 5000 1) = Some 0x7F0000000020"
    by (simp add: scenario prims ops bindR_simps Let_def cong: evalc)
  have p2: "p2 = 0x7F0000000020" "state_of (os_calloc heap_example 5000 1) = s2"
    using e2 unfolding s2(1) by (simp_all add: ret_addr_def state_of_def)
  have 2: "bytes (state_of (os_calloc heap_example 5000 1)) (0x7F0000000020 + 4999) = 0"
    "block_at (state_of (os_calloc heap_example 5000 1)) 0x7F0000000020 STATUS_MAPPED 5000"
    using s2(2,3) c(6) unfolding p2 c(4) by blast+
  from os_calloc_zeroes_payload [OF h b(3), THEN conjunct1, rule_format, OF n(3)]
  have 3: "os_calloc heap_example 0 100 = Some (Ok (0, heap_example))" .
  from h b n g e1 e2 c(7) 1 2 3 show ?thesis
    by blast
qed

end
